theory Spec2Isabelle
  imports Complex_Main "HOL-Library.Multiset" "HOL-Library.AList"
begin

section \<open>Arrays and the numpy primitives used by \<open>pfctoolkit/mapping.py\<close>\<close>

text \<open>
  The module works on one- and two-dimensional numpy arrays. A one-dimensional array is a
  list; a two-dimensional array is its list of rows together with the number of columns
  (numpy keeps the shape even when there are no rows). Entries are modelled as real
  numbers: the arithmetic below is exact, rounding of floating-point numbers is not part
  of the model. Every exception the source can raise is a value of \<open>error\<close>;
  \<open>TypingError\<close> is the exception of the numba compiler.
\<close>

datatype error = TypeError string | ValueError | IndexError | KeyError | AxisError | TypingError

record 'a matrix =
  ncols :: nat
  rows :: "'a list list"

definition nrows :: "'a matrix \<Rightarrow> nat" where
  "nrows m = length (rows m)"

definition shape :: "'a matrix \<Rightarrow> nat \<times> nat" where
  "shape m = (nrows m, ncols m)"

definition wf_matrix :: "'a matrix \<Rightarrow> bool" where
  "wf_matrix m = list_all (\<lambda>r. length r = ncols m) (rows m)"

definition and_then :: "error + 'a \<Rightarrow> ('a \<Rightarrow> error + 'b) \<Rightarrow> error + 'b" where
  "and_then r f = (case r of Inl e \<Rightarrow> Inl e | Inr x \<Rightarrow> f x)"

text \<open>
  Broadcasting: two axis lengths are compatible when they are equal or one of them is 1;
  the axis of length 1 is repeated. A one-dimensional operand of a two-dimensional
  operation is a single row (numpy prepends an axis of length 1).
\<close>

definition bdim :: "nat \<Rightarrow> nat \<Rightarrow> nat option" where
  "bdim m n = (if m = n then Some m else if m = 1 then Some n else if n = 1 then Some m else None)"

definition stretch :: "nat \<Rightarrow> 'a list \<Rightarrow> 'a list" where
  "stretch n xs = (if length xs = n then xs else replicate n (hd xs))"

definition broadcast_to :: "nat \<Rightarrow> nat \<Rightarrow> 'a matrix \<Rightarrow> 'a list list" where
  "broadcast_to r c m = stretch r (map (stretch c) (rows m))"

definition row_vector :: "'a list \<Rightarrow> 'a matrix" where
  "row_vector v = \<lparr>ncols = length v, rows = [v]\<rparr>"

text \<open>\<open>np.reshape(v, (-1, 1))\<close>: a vector as a single column.\<close>

definition column_vector :: "'a list \<Rightarrow> 'a matrix" where
  "column_vector v = \<lparr>ncols = 1, rows = map (\<lambda>x. [x]) v\<rparr>"

text \<open>\<open>np.multiply\<close> on two-dimensional operands.\<close>

definition np_multiply :: "real matrix \<Rightarrow> real matrix \<Rightarrow> error + real matrix" where
  "np_multiply a b =
     (case bdim (nrows a) (nrows b) of
        None \<Rightarrow> Inl ValueError
      | Some r \<Rightarrow>
          (case bdim (ncols a) (ncols b) of
             None \<Rightarrow> Inl ValueError
           | Some c \<Rightarrow>
               Inr \<lparr>ncols = c,
                    rows = map2 (map2 (*)) (broadcast_to r c a) (broadcast_to r c b)\<rparr>))"

text \<open>\<open>np.matmul\<close> on two-dimensional operands: the inner dimensions must agree.\<close>

definition column :: "'a matrix \<Rightarrow> nat \<Rightarrow> 'a list" where
  "column m j = map (\<lambda>r. r ! j) (rows m)"

definition np_matmul :: "real matrix \<Rightarrow> real matrix \<Rightarrow> error + real matrix" where
  "np_matmul a b =
     (if ncols a \<noteq> nrows b then Inl ValueError
      else Inr \<lparr>ncols = ncols b,
                rows = map (\<lambda>r. map (\<lambda>j. sum_list (map2 (*) r (column b j))) [0..<ncols b])
                         (rows a)\<rparr>)"

text \<open>\<open>np.sum(m, axis = 1)\<close> and \<open>np.sum(m)\<close>.\<close>

definition np_sum_axis1 :: "real matrix \<Rightarrow> real list" where
  "np_sum_axis1 m = map sum_list (rows m)"

definition np_sum :: "real matrix \<Rightarrow> real" where
  "np_sum m = sum_list (map sum_list (rows m))"

text \<open>
  Indexing. \<open>m[i]\<close> is row \<open>i\<close>; a boolean index keeps the positions where the mask is
  true and must be as long as the axis it indexes.
\<close>

definition getrow :: "'a matrix \<Rightarrow> nat \<Rightarrow> error + 'a list" where
  "getrow m i = (if i < nrows m then Inr (rows m ! i) else Inl IndexError)"

definition compress :: "bool list \<Rightarrow> 'a list \<Rightarrow> 'a list" where
  "compress msk xs = map snd (filter fst (zip msk xs))"

definition mask_vector :: "'a list \<Rightarrow> bool list \<Rightarrow> error + 'a list" where
  "mask_vector v msk = (if length msk = length v then Inr (compress msk v) else Inl IndexError)"

definition mask_rows :: "'a matrix \<Rightarrow> bool list \<Rightarrow> error + 'a matrix" where
  "mask_rows m msk =
     (if length msk = nrows m then Inr \<lparr>ncols = ncols m, rows = compress msk (rows m)\<rparr>
      else Inl IndexError)"

definition mask_columns :: "'a matrix \<Rightarrow> bool list \<Rightarrow> error + 'a matrix" where
  "mask_columns m msk =
     (if length msk = ncols m
      then Inr \<lparr>ncols = length (filter id msk), rows = map (compress msk) (rows m)\<rparr>
      else Inl IndexError)"

section \<open>The statistic accumulators\<close>

text \<open>
  The five accumulators carry the decorator \<open>@jit(nopython=True)\<close> of numba. A decorated
  function is compiled when it is called, for the types of its arguments, and the call
  raises \<open>TypingError\<close> when the body uses a function that the nopython mode does not
  implement; otherwise the compiled function computes what the body says. Of the numpy
  functions that the five bodies call, the nopython mode implements \<open>np.sum\<close>,
  \<open>np.multiply\<close> and \<open>np.reshape\<close>; it does not implement \<open>np.matmul\<close> (for a matrix
  product it has \<open>np.dot\<close> and the operator \<open>@\<close>).
\<close>

datatype numpy_function = Np_sum | Np_multiply | Np_reshape | Np_matmul

fun nopython_implements :: "numpy_function \<Rightarrow> bool" where
  "nopython_implements Np_sum = True"
| "nopython_implements Np_multiply = True"
| "nopython_implements Np_reshape = True"
| "nopython_implements Np_matmul = False"

definition jit_nopython :: "numpy_function list \<Rightarrow> error + 'a \<Rightarrow> error + 'a" where
  "jit_nopython called body = (if list_all nopython_implements called then body else Inl TypingError)"

text \<open>
  \<open>compute_network_weights\<close>, \<open>compute_numerator\<close>, \<open>compute_chunk_masks\<close> and
  \<open>compute_denominator\<close> call implemented functions only, so that each of them is its
  body. \<open>compute_network_maps\<close> calls \<open>np.matmul\<close>.
\<close>

definition compute_network_weights :: "real matrix \<Rightarrow> real list" where
  "compute_network_weights std_chunk_masks = np_sum_axis1 std_chunk_masks"

definition compute_network_maps :: "real matrix \<Rightarrow> real matrix \<Rightarrow> error + real matrix" where
  "compute_network_maps std_chunk_masks chunk_data =
     jit_nopython [Np_matmul] (np_matmul std_chunk_masks chunk_data)"

definition compute_numerator :: "real matrix \<Rightarrow> real list" where
  "compute_numerator norm_chunk_masks = np_sum_axis1 norm_chunk_masks"

definition compute_chunk_masks ::
  "real matrix \<Rightarrow> real list \<Rightarrow> real list \<Rightarrow> error + (real matrix \<times> real matrix)" where
  "compute_chunk_masks chunk_weights norm_weight std_weight =
     and_then (np_multiply chunk_weights (row_vector norm_weight))
       (\<lambda>norm_weighted_chunk_masks.
          and_then (np_multiply chunk_weights (row_vector std_weight))
            (\<lambda>std_weighted_chunk_masks.
               Inr (norm_weighted_chunk_masks, std_weighted_chunk_masks)))"

text \<open>
  \<open>compute_denominator\<close>, statement by statement: row \<open>i\<close> of the chunk weights under its
  mask, as a column, times the rows of \<open>chunk_data\<close> under the same mask; then row \<open>i\<close>
  of the brain weights under its mask times the columns of that product under the same
  mask; then the sum of everything. The index \<open>i\<close> is a position in the batch, counted
  from 0 as \<open>enumerate\<close> gives it.
\<close>

definition compute_denominator ::
  "real matrix \<Rightarrow> real matrix \<Rightarrow> bool matrix \<Rightarrow> bool matrix \<Rightarrow> real matrix \<Rightarrow> nat
     \<Rightarrow> error + real" where
  "compute_denominator brain_weights chunk_weights brain_masks chunk_masks chunk_data i =
     and_then (getrow chunk_weights i) (\<lambda>cw.
     and_then (getrow chunk_masks i) (\<lambda>cm.
     and_then (mask_vector cw cm) (\<lambda>cw_sel.
     and_then (mask_rows chunk_data cm) (\<lambda>data_rows.
     and_then (np_multiply (column_vector cw_sel) data_rows) (\<lambda>chunk_masked.
     and_then (getrow brain_weights i) (\<lambda>bw.
     and_then (getrow brain_masks i) (\<lambda>bm.
     and_then (mask_vector bw bm) (\<lambda>bw_sel.
     and_then (mask_columns chunk_masked bm) (\<lambda>data_cols.
     and_then (np_multiply (row_vector bw_sel) data_cols) (\<lambda>brain_masked.
     Inr (np_sum brain_masked)))))))))))"

text \<open>The mask of a weight array: true exactly where the weight is not zero.\<close>

definition nonzero_mask :: "real matrix \<Rightarrow> bool matrix" where
  "nonzero_mask weights = \<lparr>ncols = ncols weights, rows = map (map (\<lambda>x. x \<noteq> 0)) (rows weights)\<rparr>"

section \<open>The chunk processor\<close>

text \<open>
  \<open>process_chunk\<close> reads its surroundings through three collaborators that are not part
  of the module: the configuration object, the two maskers that project a volume to a
  vector, and the file system read by \<open>np.load\<close>. They are parameters of the model.
  A file is addressed by its directory, the chunk index and the statistic label of its
  name; what \<open>np.load\<close> returns is a two-dimensional array.
\<close>

record config =
  cfg_avgr :: string
  cfg_fz :: string
  cfg_t :: string
  cfg_combo :: string
  cfg_mask :: string
  cfg_chunk_idx :: string
  cfg_norm :: string
  cfg_std :: string
  cfg_chunk_size :: int
  cfg_brain_size :: int

record world =
  brain_transform :: "string \<Rightarrow> string \<Rightarrow> real list"
  chunk_transform :: "string \<Rightarrow> int \<Rightarrow> string \<Rightarrow> real list"
  np_load :: "string \<Rightarrow> int \<Rightarrow> string \<Rightarrow> real matrix"

text \<open>
  A contribution record maps a field name to a vector or a number; the contributions map
  an ROI path to its record. The dictionary of contributions keeps its keys in insertion
  order, as an association list with one entry per key.
\<close>

datatype pyvalue = Vector "real list" | Scalar real

type_synonym fields = "string \<rightharpoonup> pyvalue"

type_synonym contributions = "(string \<times> fields) list"

text \<open>A \<open>for\<close> loop that updates a state and stops at the first exception.\<close>

fun for_each :: "('a \<Rightarrow> 's \<Rightarrow> error + 's) \<Rightarrow> 'a list \<Rightarrow> 's \<Rightarrow> error + 's" where
  "for_each body [] s = Inr s"
| "for_each body (x # xs) s = and_then (body x s) (for_each body xs)"

text \<open>
  \<open>np.array\<close> of a non-empty list of vectors, given as its first vector and the others:
  the vectors are the rows and must have one length.
\<close>

definition np_array :: "real list \<Rightarrow> real list list \<Rightarrow> error + real matrix" where
  "np_array r rs =
     (if list_all (\<lambda>x. length x = length r) rs then Inr \<lparr>ncols = length r, rows = r # rs\<rparr>
      else Inl ValueError)"

definition chunk_types :: "(string \<times> string) list" where
  "chunk_types = [(''avgr'', ''AvgR''), (''fz'', ''AvgR_Fz''), (''t'', ''T''), (''combo'', ''Combo'')]"

definition chunk_paths :: "config \<Rightarrow> string \<Rightarrow> error + string" where
  "chunk_paths config key =
     (if key = ''avgr'' then Inr (cfg_avgr config)
      else if key = ''fz'' then Inr (cfg_fz config)
      else if key = ''t'' then Inr (cfg_t config)
      else if key = ''combo'' then Inr (cfg_combo config)
      else Inl KeyError)"

text \<open>
  The message of the \<open>TypeError\<close> raised on a shape mismatch. The source writes it as a
  plain string literal, not as a formatted one, so the text between the braces is part
  of the message as it stands.
\<close>

definition shape_mismatch_message :: string where
  "shape_mismatch_message =
     ''Chunk expected to have shape {(config.get('chunk_size'), config.get('brain_size'))} but instead has shape {np.shape(chunk_data)}!''"

text \<open>\<open>contributions[roi][key] = value\<close>: the record of \<open>roi\<close> must exist.\<close>

definition set_field :: "string \<Rightarrow> string \<Rightarrow> pyvalue \<Rightarrow> contributions \<Rightarrow> error + contributions" where
  "set_field roi key v contributions =
     (case map_of contributions roi of
        None \<Rightarrow> Inl KeyError
      | Some r \<Rightarrow> Inr (AList.update roi (r(key \<mapsto> v)) contributions))"

text \<open>The body of the loop over the ROIs for one of the statistics avgr, fz and t.\<close>

definition assign_map :: "string \<Rightarrow> real matrix \<Rightarrow> nat \<times> string \<Rightarrow> contributions \<Rightarrow> error + contributions" where
  "assign_map key network_maps ir contributions =
     (case ir of (i, roi) \<Rightarrow>
        and_then (getrow network_maps i) (\<lambda>row.
          if key = ''avgr'' then Inr (AList.update roi [key \<mapsto> Vector row] contributions)
          else set_field roi key (Vector row) contributions))"

text \<open>The body of the loop over the ROIs for the combo statistic.\<close>

definition assign_combo ::
  "real matrix \<Rightarrow> real matrix \<Rightarrow> bool matrix \<Rightarrow> bool matrix \<Rightarrow> real matrix \<Rightarrow> real list
     \<Rightarrow> nat \<times> string \<Rightarrow> contributions \<Rightarrow> error + contributions" where
  "assign_combo brain_weights chunk_weights brain_masks chunk_masks chunk_data numerator ir contributions =
     (case ir of (i, roi) \<Rightarrow>
        and_then (compute_denominator brain_weights chunk_weights brain_masks chunk_masks chunk_data i)
          (\<lambda>denominator.
             if i < length numerator
             then and_then (set_field roi ''numerator'' (Scalar (numerator ! i)) contributions)
                    (set_field roi ''denominator'' (Scalar denominator))
             else Inl IndexError))"

definition assign_weight :: "real list \<Rightarrow> nat \<times> string \<Rightarrow> contributions \<Rightarrow> error + contributions" where
  "assign_weight network_weights ir contributions =
     (case ir of (i, roi) \<Rightarrow>
        if i < length network_weights
        then set_field roi ''network_weight'' (Scalar (network_weights ! i)) contributions
        else Inl IndexError)"

text \<open>One round of the loop over the four statistics: load, check the shape, compute.\<close>

definition process_type ::
  "world \<Rightarrow> config \<Rightarrow> int \<Rightarrow> string list \<Rightarrow> real matrix \<Rightarrow> real matrix \<Rightarrow> bool matrix
     \<Rightarrow> bool matrix \<Rightarrow> real matrix \<Rightarrow> real matrix \<Rightarrow> string \<times> string \<Rightarrow> contributions
     \<Rightarrow> error + contributions" where
  "process_type w config chunk rois brain_weights chunk_weights brain_masks chunk_masks
       norm_chunk_masks std_chunk_masks chunk_type contributions =
     and_then (chunk_paths config (fst chunk_type)) (\<lambda>dir.
       let chunk_data = np_load w dir chunk (snd chunk_type) in
       if (int (nrows chunk_data), int (ncols chunk_data)) \<noteq> (cfg_chunk_size config, cfg_brain_size config)
       then Inl (TypeError shape_mismatch_message)
       else if fst chunk_type = ''combo''
       then (let numerator = compute_numerator norm_chunk_masks in
             for_each (assign_combo brain_weights chunk_weights brain_masks chunk_masks chunk_data numerator)
               (enumerate 0 rois) contributions)
       else and_then (compute_network_maps std_chunk_masks chunk_data) (\<lambda>network_maps.
              for_each (assign_map (fst chunk_type) network_maps) (enumerate 0 rois) contributions))"

text \<open>
  With an empty list of ROIs \<open>np.array\<close> gives one-dimensional arrays of length 0 for the
  weights and the masks. Broadcasting them against \<open>norm_weight\<close> and \<open>std_weight\<close>
  needs these to have length at most 1. The first round of the loop then ends the call:
  with the \<open>TypeError\<close> of the shape check, or in the decorated \<open>compute_network_maps\<close>,
  whose \<open>np.matmul\<close> would besides need the loaded array to have no rows. The statements
  after it are not reached; the sums along axis 1 in \<open>compute_numerator\<close> and
  \<open>compute_network_weights\<close> have no axis 1 in a one-dimensional array.
\<close>

definition process_type_no_rois :: "world \<Rightarrow> config \<Rightarrow> int \<Rightarrow> string \<times> string \<Rightarrow> unit \<Rightarrow> error + unit" where
  "process_type_no_rois w config chunk chunk_type u =
     and_then (chunk_paths config (fst chunk_type)) (\<lambda>dir.
       let chunk_data = np_load w dir chunk (snd chunk_type) in
       if (int (nrows chunk_data), int (ncols chunk_data)) \<noteq> (cfg_chunk_size config, cfg_brain_size config)
       then Inl (TypeError shape_mismatch_message)
       else if fst chunk_type = ''combo'' then Inl AxisError
       else jit_nopython [Np_matmul] (if nrows chunk_data \<noteq> 0 then Inl ValueError else Inr ()))"

definition process_chunk_no_rois :: "world \<Rightarrow> config \<Rightarrow> int \<Rightarrow> real list \<Rightarrow> real list \<Rightarrow> error + contributions" where
  "process_chunk_no_rois w config chunk norm_weight std_weight =
     (if 1 < length norm_weight \<or> 1 < length std_weight then Inl ValueError
      else and_then (for_each (process_type_no_rois w config chunk) chunk_types ())
             (\<lambda>u. Inl AxisError))"

definition process_chunk :: "world \<Rightarrow> config \<Rightarrow> int \<Rightarrow> string list \<Rightarrow> error + contributions" where
  "process_chunk w config chunk rois =
     (let norm_weight = chunk_transform w (cfg_chunk_idx config) chunk (cfg_norm config);
          std_weight = chunk_transform w (cfg_chunk_idx config) chunk (cfg_std config)
      in case rois of
           [] \<Rightarrow> process_chunk_no_rois w config chunk norm_weight std_weight
         | roi # others \<Rightarrow>
             and_then (np_array (brain_transform w (cfg_mask config) roi)
                                (map (brain_transform w (cfg_mask config)) others))
               (\<lambda>brain_weights.
             and_then (np_array (chunk_transform w (cfg_chunk_idx config) chunk roi)
                                (map (chunk_transform w (cfg_chunk_idx config) chunk) others))
               (\<lambda>chunk_weights.
             let brain_masks = nonzero_mask brain_weights;
                 chunk_masks = nonzero_mask chunk_weights
             in
             and_then (compute_chunk_masks chunk_weights norm_weight std_weight)
               (\<lambda>(norm_chunk_masks, std_chunk_masks).
             and_then (for_each (process_type w config chunk rois brain_weights chunk_weights
                                   brain_masks chunk_masks norm_chunk_masks std_chunk_masks)
                                chunk_types [])
               (\<lambda>contributions.
             let network_weights = compute_network_weights std_chunk_masks in
             for_each (assign_weight network_weights) (enumerate 0 rois) contributions)))))"

subsection \<open>A small configuration\<close>

text \<open>
  Two ROIs \<open>a\<close> and \<open>b\<close>, a chunk of 4 voxels in a brain of 3; every file read is the
  array given as parameter.
\<close>

definition example_config :: config where
  "example_config = \<lparr>cfg_avgr = ''avgr_dir'', cfg_fz = ''fz_dir'', cfg_t = ''t_dir'', cfg_combo = ''combo_dir'',
     cfg_mask = ''mask.nii'', cfg_chunk_idx = ''chunk_idx.nii'', cfg_norm = ''norm.nii'', cfg_std = ''std.nii'',
     cfg_chunk_size = 4, cfg_brain_size = 3\<rparr>"

definition example_world :: "real matrix \<Rightarrow> world" where
  "example_world loaded = \<lparr>
     brain_transform = (\<lambda>m roi. if roi = ''a'' then [1, 0, 2] else [0, 3, 0]),
     chunk_transform = (\<lambda>m c v. if v = ''a'' then [1, 0, 2, 0] else if v = ''b'' then [0, 1, 0, 1]
                                  else if v = ''norm.nii'' then [1, 1, 1, 1] else [2, 2, 2, 2]),
     np_load = (\<lambda>dir c label. loaded)\<rparr>"


definition file_4_4 :: "real matrix" where
  "file_4_4 = \<lparr>ncols = 4, rows = [[1, 2, 3, 4], [5, 6, 7, 8], [9, 10, 11, 12], [13, 14, 15, 16]]\<rparr>"

definition file_2_5 :: "real matrix" where
  "file_2_5 = \<lparr>ncols = 5, rows = [[1, 2, 3, 4, 5], [6, 7, 8, 9, 10]]\<rparr>"

section \<open>The consolidator\<close>

text \<open>
  \<open>consolidate\<close> updates the atlas in place, and where the atlas has no record for an
  ROI it builds one that holds the very arrays of the contribution: the new record and
  the contribution then share these arrays, and a later \<open>+=\<close> on the atlas changes them
  for both. The model therefore keeps the arrays in a store, addressed by numbers, and a
  record holds for each field either the address of an array or a number (a numpy
  scalar is immutable, so \<open>+=\<close> replaces it). The dictionaries themselves are passed as
  values: the keys of a dictionary are the first components of an association list.
\<close>

record heap =
  cells :: "nat \<Rightarrow> real list"
  next_free :: nat

datatype cell = Array nat | Number real

type_synonym entry = "string \<rightharpoonup> cell"

type_synonym pydict = "(string \<times> entry) list"

text \<open>
  \<open>x += y\<close>. On an array it adds in place, broadcasting a number or an array of length
  1, and fails when the shapes do not fit; on a number it computes \<open>x + y\<close>, which is a
  new array when \<open>y\<close> is one.
\<close>

definition iadd :: "heap \<Rightarrow> cell \<Rightarrow> cell \<Rightarrow> error + (heap \<times> cell)" where
  "iadd h x y =
     (case x of
        Array a \<Rightarrow>
          (case y of
             Array b \<Rightarrow>
               (if length (cells h b) = length (cells h a)
                then Inr (h\<lparr>cells := (cells h)(a := map2 (+) (cells h a) (cells h b))\<rparr>, Array a)
                else if length (cells h b) = 1
                then Inr (h\<lparr>cells := (cells h)(a := map (\<lambda>u. u + hd (cells h b)) (cells h a))\<rparr>, Array a)
                else Inl ValueError)
           | Number v \<Rightarrow> Inr (h\<lparr>cells := (cells h)(a := map (\<lambda>u. u + v) (cells h a))\<rparr>, Array a))
      | Number u \<Rightarrow>
          (case y of
             Array b \<Rightarrow>
               Inr (h\<lparr>cells := (cells h)(next_free h := map (\<lambda>v. u + v) (cells h b)),
                       next_free := Suc (next_free h)\<rparr>, Array (next_free h))
           | Number v \<Rightarrow> Inr (h, Number (u + v))))"

definition field_names :: "string list" where
  "field_names = [''avgr'', ''fz'', ''t'', ''network_weight'', ''numerator'', ''denominator'']"

text \<open>\<open>atlas[roi][key] += contribution[roi][key]\<close>, on the record of the atlas.\<close>

definition add_field :: "entry \<Rightarrow> string \<Rightarrow> heap \<times> entry \<Rightarrow> error + (heap \<times> entry)" where
  "add_field c key st =
     (case st of (h, a) \<Rightarrow>
        (case a key of
           None \<Rightarrow> Inl KeyError
         | Some x \<Rightarrow>
             (case c key of
                None \<Rightarrow> Inl KeyError
              | Some y \<Rightarrow> and_then (iadd h x y) (\<lambda>(h', v). Inr (h', a(key \<mapsto> v))))))"

text \<open>The new record \<open>{"avgr": contribution[roi]["avgr"], ...}\<close>.\<close>

definition copy_field :: "entry \<Rightarrow> string \<Rightarrow> entry \<Rightarrow> error + entry" where
  "copy_field c key r = (case c key of None \<Rightarrow> Inl KeyError | Some v \<Rightarrow> Inr (r(key \<mapsto> v)))"

definition consolidate_roi :: "pydict \<Rightarrow> string \<Rightarrow> heap \<times> pydict \<Rightarrow> error + (heap \<times> pydict)" where
  "consolidate_roi contribution roi st =
     (case st of (h, atlas) \<Rightarrow>
        (case map_of contribution roi of
           None \<Rightarrow> Inl KeyError
         | Some c \<Rightarrow>
             (case map_of atlas roi of
                Some a \<Rightarrow>
                  and_then (for_each (add_field c) field_names (h, a))
                    (\<lambda>(h', a'). Inr (h', AList.update roi a' atlas))
              | None \<Rightarrow>
                  and_then (for_each (copy_field c) field_names Map.empty)
                    (\<lambda>r. Inr (h, AList.update roi r atlas)))))"

definition consolidate :: "pydict \<Rightarrow> pydict \<Rightarrow> heap \<Rightarrow> error + (pydict \<times> heap)" where
  "consolidate contribution atlas h =
     and_then (for_each (consolidate_roi contribution) (map fst contribution) (h, atlas))
       (\<lambda>(h', atlas'). Inr (atlas', h'))"

text \<open>
  What a reader of a dictionary sees: for every ROI the six fields, each with the
  vector stored at its address or with its number.
\<close>

definition deref :: "heap \<Rightarrow> cell \<Rightarrow> pyvalue" where
  "deref h x = (case x of Array a \<Rightarrow> Vector (cells h a) | Number v \<Rightarrow> Scalar v)"

definition view_entry :: "heap \<Rightarrow> entry \<Rightarrow> fields" where
  "view_entry h r = (\<lambda>k. if k \<in> set field_names then map_option (deref h) (r k) else None)"

definition view :: "heap \<Rightarrow> pydict \<Rightarrow> (string \<rightharpoonup> fields)" where
  "view h d = (\<lambda>roi. map_option (view_entry h) (map_of d roi))"

text \<open>The addresses of the arrays that the six fields of a record, or a dictionary, hold.\<close>

definition cell_addrs :: "cell option \<Rightarrow> nat list" where
  "cell_addrs x = (case x of Some (Array a) \<Rightarrow> [a] | _ \<Rightarrow> [])"

definition entry_addrs :: "entry \<Rightarrow> nat list" where
  "entry_addrs r = concat (map (\<lambda>k. cell_addrs (r k)) field_names)"

definition dict_addrs :: "pydict \<Rightarrow> nat list" where
  "dict_addrs d = concat (map (\<lambda>p. entry_addrs (snd p)) d)"

text \<open>A dictionary has one entry per key, and every record has the six fields.\<close>

definition complete_entry :: "entry \<Rightarrow> bool" where
  "complete_entry r = list_all (\<lambda>k. r k \<noteq> None) field_names"

definition proper_dict :: "pydict \<Rightarrow> bool" where
  "proper_dict d = (distinct (map fst d) \<and> list_all (\<lambda>p. complete_entry (snd p)) d)"

text \<open>
  How a caller uses \<open>consolidate\<close>: the contributions of a list one after the other
  into one atlas; and the groups of a partition each into an atlas of its own, started
  empty, the atlases to be merged afterwards by consolidating them as contributions.
\<close>

fun consolidate_all :: "pydict list \<Rightarrow> pydict \<Rightarrow> heap \<Rightarrow> error + (pydict \<times> heap)" where
  "consolidate_all [] atlas h = Inr (atlas, h)"
| "consolidate_all (c # cs) atlas h =
     and_then (consolidate c atlas h) (\<lambda>(atlas', h'). consolidate_all cs atlas' h')"

fun consolidate_groups :: "pydict list list \<Rightarrow> heap \<Rightarrow> error + (pydict list \<times> heap)" where
  "consolidate_groups [] h = Inr ([], h)"
| "consolidate_groups (g # gs) h =
     and_then (consolidate_all g [] h) (\<lambda>(a, h').
       and_then (consolidate_groups gs h') (\<lambda>(as, h''). Inr (a # as, h'')))"

text \<open>What the caller reads in one field of the atlas that a call returned.\<close>

definition final_field :: "error + (pydict \<times> heap) \<Rightarrow> string \<Rightarrow> string \<Rightarrow> pyvalue option" where
  "final_field result roi key =
     (case result of
        Inl e \<Rightarrow> None
      | Inr (atlas, h) \<Rightarrow> (case view h atlas roi of None \<Rightarrow> None | Some r \<Rightarrow> r key))"

subsection \<open>Values, shapes and sums\<close>

text \<open>
  The shape of a value is the length of a vector, and none for a number. The sum of two
  values is element-wise, with a number added to every element of a vector; the sum of
  two records, or of two views of a dictionary, adds what both have and keeps what only
  one has. A view conforms to a table of shapes when every value it holds has the shape
  that the table gives for its ROI and field.
\<close>

definition vshape :: "pyvalue \<Rightarrow> nat option" where
  "vshape v = (case v of Vector xs \<Rightarrow> Some (length xs) | Scalar x \<Rightarrow> None)"

fun vadd :: "pyvalue \<Rightarrow> pyvalue \<Rightarrow> pyvalue" where
  "vadd (Vector xs) (Vector ys) = Vector (map2 (+) xs ys)"
| "vadd (Vector xs) (Scalar y) = Vector (map (\<lambda>x. x + y) xs)"
| "vadd (Scalar x) (Vector ys) = Vector (map (\<lambda>y. x + y) ys)"
| "vadd (Scalar x) (Scalar y) = Scalar (x + y)"

definition twice :: "pyvalue \<Rightarrow> pyvalue" where
  "twice v = (case v of Vector xs \<Rightarrow> Vector (map (\<lambda>x. 2 * x) xs) | Scalar x \<Rightarrow> Scalar (2 * x))"

definition lift_add :: "('v \<Rightarrow> 'v \<Rightarrow> 'v) \<Rightarrow> ('k \<rightharpoonup> 'v) \<Rightarrow> ('k \<rightharpoonup> 'v) \<Rightarrow> ('k \<rightharpoonup> 'v)" where
  "lift_add f a b = (\<lambda>k. case a k of None \<Rightarrow> b k | Some x \<Rightarrow> (case b k of None \<Rightarrow> Some x | Some y \<Rightarrow> Some (f x y)))"

definition vmerge :: "(string \<rightharpoonup> fields) \<Rightarrow> (string \<rightharpoonup> fields) \<Rightarrow> (string \<rightharpoonup> fields)" where
  "vmerge = lift_add (lift_add vadd)"

definition merge_into :: "(string \<rightharpoonup> fields) list \<Rightarrow> (string \<rightharpoonup> fields) \<Rightarrow> (string \<rightharpoonup> fields)" where
  "merge_into vs a = fold (\<lambda>c a. vmerge a c) vs a"

definition conforms :: "(string \<Rightarrow> string \<Rightarrow> nat option) \<Rightarrow> (string \<rightharpoonup> fields) \<Rightarrow> bool" where
  "conforms shape_of v = (\<forall>roi r k x. v roi = Some r \<longrightarrow> r k = Some x \<longrightarrow> vshape x = shape_of roi k)"

text \<open>The six fields of a record, as the new record of the atlas takes them over.\<close>

definition six_fields :: "entry \<Rightarrow> entry" where
  "six_fields r = (\<lambda>k. if k \<in> set field_names then r k else None)"

subsection \<open>Two contributions in a store\<close>

text \<open>
  Two contributions for one ROI, with vectors of length 2 at the addresses 0 to 5 of the
  store.
\<close>

definition example_heap :: heap where
  "example_heap =
     \<lparr>cells = (\<lambda>a. if a = 0 then [1, 2] else if a = 1 then [3, 4] else if a = 2 then [5, 6]
                    else if a = 3 then [10, 20] else if a = 4 then [30, 40]
                    else if a = 5 then [50, 60] else []),
      next_free = 6\<rparr>"

definition contribution_one :: pydict where
  "contribution_one =
     [(''roi'', [''avgr'' \<mapsto> Array 0, ''fz'' \<mapsto> Array 1, ''t'' \<mapsto> Array 2,
                 ''network_weight'' \<mapsto> Number 7, ''numerator'' \<mapsto> Number 8,
                 ''denominator'' \<mapsto> Number 9])]"

definition contribution_two :: pydict where
  "contribution_two =
     [(''roi'', [''avgr'' \<mapsto> Array 3, ''fz'' \<mapsto> Array 4, ''t'' \<mapsto> Array 5,
                 ''network_weight'' \<mapsto> Number 70, ''numerator'' \<mapsto> Number 80,
                 ''denominator'' \<mapsto> Number 90])]"

text \<open>A contribution whose fields \<open>avgr\<close> and \<open>fz\<close> hold one and the same array.\<close>

definition contribution_shared :: pydict where
  "contribution_shared =
     [(''roi'', [''avgr'' \<mapsto> Array 0, ''fz'' \<mapsto> Array 0, ''t'' \<mapsto> Array 2,
                 ''network_weight'' \<mapsto> Number 7, ''numerator'' \<mapsto> Number 8,
                 ''denominator'' \<mapsto> Number 9])]"

text \<open>\<open>consolidate(c, consolidate(c, {}))\<close>.\<close>

definition twice_into_empty :: "pydict \<Rightarrow> heap \<Rightarrow> error + (pydict \<times> heap)" where
  "twice_into_empty c h = and_then (consolidate c [] h) (\<lambda>(atlas, h'). consolidate c atlas h')"

definition example_shape :: "string \<Rightarrow> string \<Rightarrow> nat option" where
  "example_shape roi key = (if key = ''avgr'' \<or> key = ''fz'' \<or> key = ''t'' then Some 2 else None)"

section \<open>Basic facts\<close>

lemma and_then_Inr [simp]: "and_then (Inr x) f = f x"
  by (simp add: and_then_def)

lemma and_then_Inl [simp]: "and_then (Inl e) f = Inl e"
  by (simp add: and_then_def)

lemma map2_replicate_right:
  "length xs = n \<Longrightarrow> map2 f xs (replicate n y) = map (\<lambda>x. f x y) xs"
  by (induction xs arbitrary: n) auto

lemma map2_replicate_left:
  "length ys = n \<Longrightarrow> map2 f (replicate n x) ys = map (f x) ys"
  by (induction ys arbitrary: n) auto

lemma bdim_one_right [simp]: "bdim n (Suc 0) = Some n"
  by (simp add: bdim_def)

lemma bdim_one_left [simp]: "bdim (Suc 0) n = Some n"
  by (simp add: bdim_def)

lemma bdim_same [simp]: "bdim n n = Some n"
  by (simp add: bdim_def)

lemma stretch_same [simp]: "length xs = n \<Longrightarrow> stretch n xs = xs"
  by (simp add: stretch_def)

lemma stretch_single [simp]: "stretch n [x] = replicate n x"
  by (cases "n = 1") (simp_all add: stretch_def)

lemma wf_matrix_rows: "wf_matrix m \<Longrightarrow> r \<in> set (rows m) \<Longrightarrow> length r = ncols m"
  by (simp add: wf_matrix_def list_all_iff)

lemma wf_matrix_nth: "wf_matrix m \<Longrightarrow> i < nrows m \<Longrightarrow> length (rows m ! i) = ncols m"
  by (simp add: wf_matrix_def list_all_length nrows_def)

lemma broadcast_to_same:
  "wf_matrix m \<Longrightarrow> broadcast_to (nrows m) (ncols m) m = rows m"
  by (simp add: broadcast_to_def nrows_def wf_matrix_rows map_idI)

lemma broadcast_to_row_vector:
  "broadcast_to r (length v) (row_vector v) = replicate r v"
  by (simp add: broadcast_to_def row_vector_def)

lemma np_multiply_row_vector:
  assumes "wf_matrix m" and "length v = ncols m"
  shows "np_multiply m (row_vector v) =
         Inr \<lparr>ncols = ncols m, rows = map (\<lambda>r. map2 (*) r v) (rows m)\<rparr>"
proof -
  have "broadcast_to (nrows m) (ncols m) (row_vector v) = replicate (nrows m) v"
    using assms(2) broadcast_to_row_vector [of "nrows m" v] by simp
  moreover have "nrows (row_vector v) = 1" "ncols (row_vector v) = ncols m"
    using assms(2) by (simp_all add: row_vector_def nrows_def)
  moreover have "length (rows m) = nrows m"
    by (simp add: nrows_def)
  ultimately show ?thesis
    using assms(1)
    by (simp add: np_multiply_def broadcast_to_same map2_replicate_right)
qed

lemma sum_list_nth_sum: "sum_list (xs :: real list) = (\<Sum>j<length xs. xs ! j)"
  by (simp add: sum_list_sum_nth atLeast0LessThan)

lemma compute_chunk_masks_ok:
  assumes "wf_matrix chunk_weights"
    and "length norm_weight = ncols chunk_weights"
    and "length std_weight = ncols chunk_weights"
  shows "compute_chunk_masks chunk_weights norm_weight std_weight =
           Inr (\<lparr>ncols = ncols chunk_weights, rows = map (\<lambda>r. map2 (*) r norm_weight) (rows chunk_weights)\<rparr>,
                \<lparr>ncols = ncols chunk_weights, rows = map (\<lambda>r. map2 (*) r std_weight) (rows chunk_weights)\<rparr>)"
  using assms by (simp add: compute_chunk_masks_def np_multiply_row_vector)

lemma sum_list_map2_mult:
  "length xs = length ys \<Longrightarrow>
     sum_list (map2 (*) xs ys) = (\<Sum>c<length xs. xs ! c * (ys ! c :: real))"
  by (simp add: sum_list_sum_nth atLeast0LessThan)

lemma length_column [simp]: "length (column m j) = nrows m"
  by (simp add: column_def nrows_def)

lemma nth_column: "c < nrows m \<Longrightarrow> column m j ! c = rows m ! c ! j"
  by (simp add: column_def nrows_def)

text \<open>
  The body of \<open>compute_network_maps\<close>. For conforming shapes (\<open>M\<close> of shape \<open>(R, C)\<close>,
  \<open>D\<close> of shape \<open>(C, B)\<close>), \<open>np.matmul\<close> returns the matrix product: an \<open>R \<times> B\<close> matrix
  whose entry \<open>(r, b)\<close> is the sum over \<open>c < C\<close> of \<open>M[r][c] * D[c][b]\<close>, and the
  all-zeros matrix for the all-zeros \<open>M\<close>.
\<close>

lemma np_matmul_matrix_product:
  assumes "wf_matrix M" and "shape M = (R, C)" and "wf_matrix D" and "shape D = (C, B)"
  shows "\<exists>P. np_matmul M D = Inr P \<and> wf_matrix P \<and> shape P = (R, B) \<and>
             (\<forall>r<R. \<forall>b<B. rows P ! r ! b = (\<Sum>c<C. rows M ! r ! c * rows D ! c ! b)) \<and>
             np_matmul \<lparr>ncols = C, rows = replicate R (replicate C 0)\<rparr> D =
               Inr \<lparr>ncols = B, rows = replicate R (replicate B 0)\<rparr>"
proof -
  define P :: "real matrix" where
    "P = \<lparr>ncols = B, rows = map (\<lambda>r. map (\<lambda>j. sum_list (map2 (*) r (column D j))) [0..<B]) (rows M)\<rparr>"
  from assms have dims: "nrows M = R" "ncols M = C" "nrows D = C" "ncols D = B"
    by (simp_all add: shape_def)
  have res: "np_matmul M D = Inr P"
    by (simp add: np_matmul_def dims P_def)
  have wf: "wf_matrix P"
    by (simp add: wf_matrix_def P_def list_all_iff)
  have sh: "shape P = (R, B)"
    using dims by (simp add: shape_def P_def nrows_def)
  have entry: "rows P ! r ! b = (\<Sum>c<C. rows M ! r ! c * rows D ! c ! b)"
    if "r < R" and "b < B" for r b
  proof -
    have len: "length (rows M ! r) = C"
      using wf_matrix_nth [OF assms(1)] that(1) dims by simp
    have "rows P ! r ! b = sum_list (map2 (*) (rows M ! r) (column D b))"
      using that dims by (simp add: P_def nrows_def)
    also have "\<dots> = (\<Sum>c<C. rows M ! r ! c * column D b ! c)"
      using sum_list_map2_mult [of "rows M ! r" "column D b"] len dims by simp
    also have "\<dots> = (\<Sum>c<C. rows M ! r ! c * rows D ! c ! b)"
      using dims by (intro sum.cong) (simp_all add: nth_column)
    finally show ?thesis .
  qed
  have times_zero: "(*) (0::real) = (\<lambda>x. 0)"
    by (rule ext) simp
  have zero_entry: "sum_list (map2 (*) (replicate C 0) (column D j)) = 0" for j
    using dims by (simp add: map2_replicate_left times_zero)
  have zeros: "np_matmul \<lparr>ncols = C, rows = replicate R (replicate C 0)\<rparr> D =
               Inr \<lparr>ncols = B, rows = replicate R (replicate B 0)\<rparr>"
    using dims by (simp add: np_matmul_def zero_entry map_replicate_const)
  from res wf sh entry zeros show ?thesis by blast
qed

text \<open>
  Claim C7. \<open>compute_network_maps\<close> does not return the matrix product. Its body calls
  \<open>np.matmul\<close>, which the nopython mode of its decorator does not implement: every call
  raises \<open>TypingError\<close>, whatever the shapes and the entries of the operands. For
  \<open>M = [[1, 2], [3, 4]]\<close> and \<open>D = [[5], [6]]\<close> the body alone gives the product
  \<open>[[17], [39]]\<close>, the decorated function the exception; the same holds for the
  all-zeros \<open>M\<close>.
\<close>

theorem compute_network_maps_raises_typing_error:
  "compute_network_maps M D = Inl TypingError \<and>
   np_matmul \<lparr>ncols = 2, rows = [[1, 2], [3, 4]]\<rparr> \<lparr>ncols = 1, rows = [[5], [6]]\<rparr> =
     Inr \<lparr>ncols = 1, rows = [[17], [39]]\<rparr> \<and>
   compute_network_maps \<lparr>ncols = 2, rows = [[1, 2], [3, 4]]\<rparr> \<lparr>ncols = 1, rows = [[5], [6]]\<rparr> =
     Inl TypingError \<and>
   np_matmul \<lparr>ncols = 2, rows = [[0, 0], [0, 0]]\<rparr> \<lparr>ncols = 1, rows = [[5], [6]]\<rparr> =
     Inr \<lparr>ncols = 1, rows = [[0], [0]]\<rparr> \<and>
   compute_network_maps \<lparr>ncols = 2, rows = [[0, 0], [0, 0]]\<rparr> \<lparr>ncols = 1, rows = [[5], [6]]\<rparr> =
     Inl TypingError"
proof -
  have raises: "compute_network_maps A B = Inl TypingError" for A B
    by (simp add: compute_network_maps_def jit_nopython_def)
  have product: "np_matmul \<lparr>ncols = 2, rows = [[1, 2], [3, 4]]\<rparr> \<lparr>ncols = 1, rows = [[5], [6]]\<rparr> =
     Inr \<lparr>ncols = 1, rows = [[17], [39]]\<rparr>"
    by (simp add: np_matmul_def column_def nrows_def)
  have zeros: "np_matmul \<lparr>ncols = 2, rows = [[0, 0], [0, 0]]\<rparr> \<lparr>ncols = 1, rows = [[5], [6]]\<rparr> =
     Inr \<lparr>ncols = 1, rows = [[0], [0]]\<rparr>"
    by (simp add: np_matmul_def column_def nrows_def)
  from raises product zeros show ?thesis
    by simp
qed

text \<open>
  Claim C8. For \<open>chunk_weights\<close> of shape \<open>(R, C)\<close> and \<open>norm_weight\<close>, \<open>std_weight\<close>
  of length \<open>C\<close>, \<open>compute_chunk_masks\<close> succeeds and returns two matrices of shape
  \<open>(R, C)\<close>: entry \<open>(i, j)\<close> of the first is \<open>chunk_weights[i][j] * norm_weight[j]\<close>, of
  the second \<open>chunk_weights[i][j] * std_weight[j]\<close>. The result is a function of the three
  arguments alone: \<open>np.multiply\<close> allocates its result and leaves its operands as they
  are.
\<close>

theorem compute_chunk_masks_row_broadcast:
  assumes "wf_matrix chunk_weights" and "shape chunk_weights = (R, C)"
    and "length norm_weight = C" and "length std_weight = C"
  shows "\<exists>n s. compute_chunk_masks chunk_weights norm_weight std_weight = Inr (n, s) \<and>
           wf_matrix n \<and> shape n = (R, C) \<and> wf_matrix s \<and> shape s = (R, C) \<and>
           (\<forall>i<R. \<forall>j<C. rows n ! i ! j = rows chunk_weights ! i ! j * norm_weight ! j \<and>
                           rows s ! i ! j = rows chunk_weights ! i ! j * std_weight ! j)"
proof -
  from assms have dims: "nrows chunk_weights = R" "ncols chunk_weights = C"
    by (simp_all add: shape_def)
  define scaled :: "real list \<Rightarrow> real matrix" where
    "scaled v = \<lparr>ncols = C, rows = map (\<lambda>r. map2 (*) r v) (rows chunk_weights)\<rparr>" for v
  have res: "compute_chunk_masks chunk_weights norm_weight std_weight =
             Inr (scaled norm_weight, scaled std_weight)"
    using assms dims by (simp add: compute_chunk_masks_ok scaled_def)
  have props: "wf_matrix (scaled v) \<and> shape (scaled v) = (R, C) \<and>
               (\<forall>i<R. \<forall>j<C. rows (scaled v) ! i ! j = rows chunk_weights ! i ! j * v ! j)"
    if "length v = C" for v
  proof -
    have "length r = C" if "r \<in> set (rows chunk_weights)" for r
      using wf_matrix_rows [OF assms(1) that] dims by simp
    then have "wf_matrix (scaled v)"
      using \<open>length v = C\<close> by (simp add: wf_matrix_def scaled_def list_all_iff)
    moreover have "shape (scaled v) = (R, C)"
      using dims by (simp add: shape_def scaled_def nrows_def)
    moreover have "rows (scaled v) ! i ! j = rows chunk_weights ! i ! j * v ! j"
      if "i < R" "j < C" for i j
      using that dims wf_matrix_nth [OF assms(1), of i] \<open>length v = C\<close>
      by (simp add: scaled_def nrows_def)
    ultimately show ?thesis by blast
  qed
  from res props [OF assms(3)] props [OF assms(4)] show ?thesis by blast
qed

theorem compute_chunk_masks_row_broadcast_witness:
  "wf_matrix \<lparr>ncols = 4, rows = [[1, 0, 2, 0], [0, 1, 0, 1 :: real]]\<rparr> \<and>
   shape \<lparr>ncols = 4, rows = [[1, 0, 2, 0], [0, 1, 0, 1 :: real]]\<rparr> = (2, 4) \<and>
   length [1, 1, 1, 1 :: real] = 4 \<and> length [2, 2, 2, 2 :: real] = 4 \<and>
   (\<exists>n s. compute_chunk_masks \<lparr>ncols = 4, rows = [[1, 0, 2, 0], [0, 1, 0, 1]]\<rparr>
              [1, 1, 1, 1] [2, 2, 2, 2] = Inr (n, s) \<and>
          shape n = (2, 4) \<and> shape s = (2, 4) \<and> rows n ! 0 ! 2 = 2 \<and> rows s ! 0 ! 2 = 4)"
proof -
  let ?W = "\<lparr>ncols = 4, rows = [[1, 0, 2, 0], [0, 1, 0, 1 :: real]]\<rparr>"
  have h1: "wf_matrix ?W" by (simp add: wf_matrix_def)
  have h2: "shape ?W = (2, 4)" by (simp add: shape_def nrows_def)
  have h3: "length [1, 1, 1, 1 :: real] = 4" by simp
  have h4: "length [2, 2, 2, 2 :: real] = 4" by simp
  from compute_chunk_masks_row_broadcast [OF h1 h2 h3 h4]
  obtain n s where ns: "compute_chunk_masks ?W [1, 1, 1, 1] [2, 2, 2, 2] = Inr (n, s)"
      "shape n = (2, 4)" "shape s = (2, 4)"
    and entry: "\<forall>i<2. \<forall>j<4. rows n ! i ! j = rows ?W ! i ! j * [1, 1, 1, 1] ! j \<and>
                              rows s ! i ! j = rows ?W ! i ! j * [2, 2, 2, 2] ! j"
    by blast
  from entry have "rows n ! 0 ! 2 = rows ?W ! 0 ! 2 * [1, 1, 1, 1] ! 2 \<and>
                   rows s ! 0 ! 2 = rows ?W ! 0 ! 2 * [2, 2, 2, 2] ! 2"
    by simp
  then have "rows n ! 0 ! 2 = 2 \<and> rows s ! 0 ! 2 = 4"
    by (simp add: numeral_2_eq_2)
  with h1 h2 h3 h4 ns show ?thesis by blast
qed

text \<open>
  Claim C9. For \<open>std_chunk_masks\<close> of shape \<open>(R, C)\<close>, \<open>compute_network_weights\<close>
  returns the vector of length \<open>R\<close> of the row sums. In the scenario of the specification,
  \<open>chunk_weights = [[1,0,2,0],[0,1,0,1]]\<close> and \<open>std_weight = [2,2,2,2]\<close> give the
  std-weighted masks \<open>[[2,0,4,0],[0,2,0,2]]\<close>, whose network weights are \<open>[6, 4]\<close>.
\<close>

theorem compute_network_weights_row_sums:
  assumes "wf_matrix std_chunk_masks" and "shape std_chunk_masks = (R, C)"
  shows "length (compute_network_weights std_chunk_masks) = R \<and>
         (\<forall>i<R. compute_network_weights std_chunk_masks ! i = (\<Sum>j<C. rows std_chunk_masks ! i ! j)) \<and>
         compute_chunk_masks \<lparr>ncols = 4, rows = [[1, 0, 2, 0], [0, 1, 0, 1]]\<rparr> [1, 1, 1, 1] [2, 2, 2, 2] =
           Inr (\<lparr>ncols = 4, rows = [[1, 0, 2, 0], [0, 1, 0, 1]]\<rparr>,
                \<lparr>ncols = 4, rows = [[2, 0, 4, 0], [0, 2, 0, 2]]\<rparr>) \<and>
         compute_network_weights \<lparr>ncols = 4, rows = [[2, 0, 4, 0], [0, 2, 0, 2]]\<rparr> = [6, 4]"
proof -
  from assms have dims: "nrows std_chunk_masks = R" "ncols std_chunk_masks = C"
    by (simp_all add: shape_def)
  have len: "length (compute_network_weights std_chunk_masks) = R"
    using dims by (simp add: compute_network_weights_def np_sum_axis1_def nrows_def)
  have entry: "compute_network_weights std_chunk_masks ! i = (\<Sum>j<C. rows std_chunk_masks ! i ! j)"
    if "i < R" for i
    using that dims wf_matrix_nth [OF assms(1), of i] sum_list_nth_sum [of "rows std_chunk_masks ! i"]
    by (simp add: compute_network_weights_def np_sum_axis1_def nrows_def)
  have masks: "compute_chunk_masks \<lparr>ncols = 4, rows = [[1, 0, 2, 0], [0, 1, 0, 1]]\<rparr> [1, 1, 1, 1] [2, 2, 2, 2] =
           Inr (\<lparr>ncols = 4, rows = [[1, 0, 2, 0], [0, 1, 0, 1]]\<rparr>,
                \<lparr>ncols = 4, rows = [[2, 0, 4, 0], [0, 2, 0, 2]]\<rparr>)"
    by (simp add: compute_chunk_masks_def np_multiply_def row_vector_def nrows_def bdim_def
        broadcast_to_def stretch_def)
  have weights: "compute_network_weights \<lparr>ncols = 4, rows = [[2, 0, 4, 0], [0, 2, 0, 2]]\<rparr> = [6, 4]"
    by (simp add: compute_network_weights_def np_sum_axis1_def)
  from len entry masks weights show ?thesis by blast
qed

theorem compute_network_weights_row_sums_witness:
  "wf_matrix \<lparr>ncols = 4, rows = [[2, 0, 4, 0], [0, 2, 0, 2 :: real]]\<rparr> \<and>
   shape \<lparr>ncols = 4, rows = [[2, 0, 4, 0], [0, 2, 0, 2 :: real]]\<rparr> = (2, 4) \<and>
   length (compute_network_weights \<lparr>ncols = 4, rows = [[2, 0, 4, 0], [0, 2, 0, 2]]\<rparr>) = 2 \<and>
   compute_network_weights \<lparr>ncols = 4, rows = [[2, 0, 4, 0], [0, 2, 0, 2]]\<rparr> ! 1 = 4"
proof -
  let ?S = "\<lparr>ncols = 4, rows = [[2, 0, 4, 0], [0, 2, 0, 2 :: real]]\<rparr>"
  have h1: "wf_matrix ?S" by (simp add: wf_matrix_def)
  have h2: "shape ?S = (2, 4)" by (simp add: shape_def nrows_def)
  from compute_network_weights_row_sums [OF h1 h2]
  have len: "length (compute_network_weights ?S) = 2"
    and entry: "\<forall>i<2. compute_network_weights ?S ! i = (\<Sum>j<4. rows ?S ! i ! j)"
    by blast+
  from entry have "compute_network_weights ?S ! 1 = (\<Sum>j<4. rows ?S ! 1 ! j)"
    by simp
  also have "\<dots> = 4"
    by (simp add: eval_nat_numeral)
  finally have "compute_network_weights ?S ! 1 = 4" .
  with h1 h2 len show ?thesis by blast
qed

lemma compress_Cons [simp]:
  "compress (b # m) (x # xs) = (if b then x # compress m xs else compress m xs)"
  by (simp add: compress_def)

lemma compress_Nil [simp]: "compress [] xs = []" "compress m [] = []"
  by (simp_all add: compress_def)

lemma compress_snoc:
  "length m = length xs \<Longrightarrow>
     compress (m @ [b]) (xs @ [x]) = compress m xs @ (if b then [x] else [])"
  by (simp add: compress_def)

lemma compress_map: "compress m (map f xs) = map f (compress m xs)"
  by (simp add: compress_def zip_map2 filter_map comp_def case_prod_unfold)

lemma compress_zip:
  "length m = length xs \<Longrightarrow> length xs = length ys \<Longrightarrow>
     zip (compress m xs) (compress m ys) = compress m (zip xs ys)"
  by (induction m xs ys rule: list_induct3) simp_all

lemma length_compress:
  "length m = length xs \<Longrightarrow> length (compress m xs) = length (filter id m)"
  by (induction m xs rule: list_induct2) simp_all

lemma sum_list_compress:
  fixes f :: "'a \<Rightarrow> real"
  shows "length m = length xs \<Longrightarrow>
     sum_list (map f (compress m xs)) = (\<Sum>j\<in>{j. j < length xs \<and> m ! j}. f (xs ! j))"
proof (induction m xs rule: rev_induct2)
  case (4 b m x xs)
  then have len: "length m = length xs" by simp
  let ?n = "length xs"
  let ?S = "{j. j < ?n \<and> m ! j}"
  have old: "sum_list (map f (compress m xs)) = (\<Sum>j\<in>?S. f (xs ! j))"
    using 4 len by simp
  have same: "(\<Sum>j\<in>?S. f ((xs @ [x]) ! j)) = (\<Sum>j\<in>?S. f (xs ! j))"
    by (intro sum.cong) (simp_all add: nth_append)
  have fin: "finite ?S" by simp
  show ?case
  proof (cases b)
    case True
    have "{j. j < length (xs @ [x]) \<and> (m @ [b]) ! j} = insert ?n ?S"
      using True len by (auto simp: nth_append less_Suc_eq)
    moreover have "?n \<notin> ?S" by simp
    ultimately show ?thesis
      using True len old same fin by (simp add: compress_snoc)
  next
    case False
    have "{j. j < length (xs @ [x]) \<and> (m @ [b]) ! j} = ?S"
      using False len by (auto simp: nth_append less_Suc_eq)
    then show ?thesis
      using False len old same by (simp add: compress_snoc)
  qed
qed simp_all

lemma map2_rows_replicate:
  assumes "\<forall>row\<in>set rs. length row = B"
  shows "map2 (map2 f) (map (replicate B) ws) rs = map2 (\<lambda>x row. map (f x) row) ws rs"
proof -
  have "map2 (map2 f) (map (replicate B) ws) rs =
        map (\<lambda>(x, row). map2 f (replicate B x) row) (zip ws rs)"
    by (simp add: zip_map1 case_prod_unfold)
  also have "\<dots> = map (\<lambda>(x, row). map (f x) row) (zip ws rs)"
    using assms by (intro map_cong) (auto simp: map2_replicate_left dest: set_zip_rightD)
  finally show ?thesis .
qed

lemma np_multiply_column_vector:
  assumes "wf_matrix D" and "nrows D = length ws"
  shows "np_multiply (column_vector ws) D =
         Inr \<lparr>ncols = ncols D, rows = map2 (\<lambda>x row. map ((*) x) row) ws (rows D)\<rparr>"
proof -
  have dims: "nrows (column_vector ws) = length ws" "ncols (column_vector ws) = Suc 0"
    by (simp_all add: column_vector_def nrows_def)
  have left: "broadcast_to (length ws) (ncols D) (column_vector ws) = map (replicate (ncols D)) ws"
    by (simp add: broadcast_to_def column_vector_def comp_def)
  have right: "broadcast_to (length ws) (ncols D) D = rows D"
    using broadcast_to_same [OF assms(1)] assms(2) by simp
  have rows: "\<forall>row\<in>set (rows D). length row = ncols D"
    using assms(1) by (simp add: wf_matrix_rows)
  show ?thesis
    using assms(2) by (simp add: np_multiply_def dims left right map2_rows_replicate [OF rows])
qed

lemma np_multiply_row_vector_left:
  assumes "wf_matrix D" and "length bs = ncols D"
  shows "np_multiply (row_vector bs) D =
         Inr \<lparr>ncols = ncols D, rows = map (map2 (*) bs) (rows D)\<rparr>"
proof -
  have dims: "nrows (row_vector bs) = Suc 0" "ncols (row_vector bs) = ncols D"
    using assms(2) by (simp_all add: row_vector_def nrows_def)
  have left: "broadcast_to (nrows D) (ncols D) (row_vector bs) = replicate (nrows D) bs"
    using broadcast_to_row_vector [of "nrows D" bs] assms(2) by simp
  have right: "broadcast_to (nrows D) (ncols D) D = rows D"
    by (rule broadcast_to_same [OF assms(1)])
  have "length (rows D) = nrows D"
    by (simp add: nrows_def)
  then show ?thesis
    by (simp add: np_multiply_def dims left right map2_replicate_left)
qed

lemma compute_denominator_eval:
  assumes wf: "wf_matrix chunk_data"
    and dims: "nrows chunk_data = C" "ncols chunk_data = B"
    and idx: "i < nrows chunk_weights" "i < nrows chunk_masks"
             "i < nrows brain_weights" "i < nrows brain_masks"
    and lens: "length (rows chunk_weights ! i) = C" "length (rows chunk_masks ! i) = C"
              "length (rows brain_weights ! i) = B" "length (rows brain_masks ! i) = B"
  shows "compute_denominator brain_weights chunk_weights brain_masks chunk_masks chunk_data i =
         Inr (\<Sum>j\<in>{j. j < C \<and> rows chunk_masks ! i ! j}.
                \<Sum>k\<in>{k. k < B \<and> rows brain_masks ! i ! k}.
                  rows brain_weights ! i ! k * (rows chunk_weights ! i ! j * rows chunk_data ! j ! k))"
proof -
  let ?cw = "rows chunk_weights ! i" and ?cm = "rows chunk_masks ! i"
  let ?bw = "rows brain_weights ! i" and ?bm = "rows brain_masks ! i"
  let ?rs = "rows chunk_data"
  have len_rs: "length ?rs = C"
    using dims by (simp add: nrows_def)
  have row_len: "length row = B" if "row \<in> set ?rs" for row
    using wf_matrix_rows [OF wf that] dims by simp
  \<comment> \<open>the rows selected by the chunk mask\<close>
  define data_rows :: "real matrix" where "data_rows = \<lparr>ncols = B, rows = compress ?cm ?rs\<rparr>"
  have sel_rows: "mask_rows chunk_data ?cm = Inr data_rows"
    using lens dims by (simp add: mask_rows_def data_rows_def)
  have wf_rows: "wf_matrix data_rows"
    using row_len by (auto simp: wf_matrix_def data_rows_def list_all_iff compress_def dest!: set_zip_rightD)
  have n_rows: "nrows data_rows = length (compress ?cm ?cw)"
    using lens len_rs by (simp add: data_rows_def nrows_def length_compress)
  define chunk_masked :: "real matrix" where
    "chunk_masked = \<lparr>ncols = B, rows = map (\<lambda>(x, row). map ((*) x) row) (compress ?cm (zip ?cw ?rs))\<rparr>"
  have mul1: "np_multiply (column_vector (compress ?cm ?cw)) data_rows = Inr chunk_masked"
    using np_multiply_column_vector [OF wf_rows n_rows] lens len_rs
    by (simp add: data_rows_def chunk_masked_def compress_zip)
  \<comment> \<open>the columns selected by the brain mask\<close>
  define data_cols :: "real matrix" where
    "data_cols = \<lparr>ncols = length (filter id ?bm), rows = map (compress ?bm) (rows chunk_masked)\<rparr>"
  have sel_cols: "mask_columns chunk_masked ?bm = Inr data_cols"
    using lens by (simp add: mask_columns_def data_cols_def chunk_masked_def)
  have masked_len: "length r = B" if "r \<in> set (rows chunk_masked)" for r
    using that row_len
    by (auto simp: chunk_masked_def compress_def dest!: set_zip_rightD)
  have wf_cols: "wf_matrix data_cols"
    using masked_len lens by (simp add: wf_matrix_def data_cols_def list_all_iff length_compress)
  have n_cols: "length (compress ?bm ?bw) = ncols data_cols"
    using lens by (simp add: data_cols_def length_compress)
  have mul2: "np_multiply (row_vector (compress ?bm ?bw)) data_cols =
              Inr \<lparr>ncols = ncols data_cols, rows = map (map2 (*) (compress ?bm ?bw)) (rows data_cols)\<rparr>"
    by (rule np_multiply_row_vector_left [OF wf_cols n_cols])
  \<comment> \<open>the sum of one row of the final product\<close>
  have inner: "sum_list (map2 (*) (compress ?bm ?bw) (compress ?bm (map ((*) x) row))) =
               (\<Sum>k\<in>{k. k < B \<and> ?bm ! k}. ?bw ! k * (x * row ! k))"
    if "length row = B" for x row
  proof -
    have "map2 (*) (compress ?bm ?bw) (compress ?bm (map ((*) x) row)) =
          map (\<lambda>(b, y). b * (x * y)) (compress ?bm (zip ?bw row))"
      using lens that
      by (simp add: compress_zip zip_map2 compress_map [symmetric] case_prod_unfold comp_def)
    moreover have "sum_list (map (\<lambda>(b, y). b * (x * y)) (compress ?bm (zip ?bw row))) =
          (\<Sum>k\<in>{k. k < length (zip ?bw row) \<and> ?bm ! k}. (\<lambda>(b, y). b * (x * y)) (zip ?bw row ! k))"
      using lens that by (intro sum_list_compress) simp
    moreover have "\<dots> = (\<Sum>k\<in>{k. k < B \<and> ?bm ! k}. ?bw ! k * (x * row ! k))"
      using lens that by (intro sum.cong) auto
    ultimately show ?thesis by simp
  qed
  have total: "np_sum \<lparr>ncols = ncols data_cols, rows = map (map2 (*) (compress ?bm ?bw)) (rows data_cols)\<rparr> =
        (\<Sum>j\<in>{j. j < C \<and> ?cm ! j}. \<Sum>k\<in>{k. k < B \<and> ?bm ! k}. ?bw ! k * (?cw ! j * ?rs ! j ! k))"
  proof -
    let ?h = "\<lambda>(x, row). \<Sum>k\<in>{k. k < B \<and> ?bm ! k}. ?bw ! k * (x * row ! k)"
    have "np_sum \<lparr>ncols = ncols data_cols, rows = map (map2 (*) (compress ?bm ?bw)) (rows data_cols)\<rparr> =
          sum_list (map (\<lambda>(x, row). sum_list (map2 (*) (compress ?bm ?bw) (compress ?bm (map ((*) x) row))))
                        (compress ?cm (zip ?cw ?rs)))"
      by (simp add: np_sum_def data_cols_def chunk_masked_def comp_def case_prod_unfold)
    also have "\<dots> = sum_list (map ?h (compress ?cm (zip ?cw ?rs)))"
    proof (intro arg_cong [where f = sum_list] map_cong refl)
      fix p assume "p \<in> set (compress ?cm (zip ?cw ?rs))"
      then have "snd p \<in> set ?rs"
        by (auto simp: compress_def dest!: set_zip_rightD)
      then have "length (snd p) = B" by (rule row_len)
      then show "(\<lambda>(x, row). sum_list (map2 (*) (compress ?bm ?bw) (compress ?bm (map ((*) x) row)))) p = ?h p"
        using inner [of "snd p" "fst p"] by (simp add: case_prod_unfold)
    qed
    also have "\<dots> = (\<Sum>j\<in>{j. j < length (zip ?cw ?rs) \<and> ?cm ! j}. ?h (zip ?cw ?rs ! j))"
      using lens len_rs by (intro sum_list_compress) simp
    also have "\<dots> = (\<Sum>j\<in>{j. j < C \<and> ?cm ! j}. \<Sum>k\<in>{k. k < B \<and> ?bm ! k}. ?bw ! k * (?cw ! j * ?rs ! j ! k))"
      using lens len_rs by (intro sum.cong) auto
    finally show ?thesis .
  qed
  show ?thesis
    using idx lens sel_rows mul1 sel_cols mul2 total
    by (simp add: compute_denominator_def getrow_def mask_vector_def)
qed

lemma rows_nonzero_mask_nth:
  "i < nrows w \<Longrightarrow> rows (nonzero_mask w) ! i = map (\<lambda>x. x \<noteq> 0) (rows w ! i)"
  by (simp add: nonzero_mask_def nrows_def)

lemma nrows_nonzero_mask [simp]: "nrows (nonzero_mask w) = nrows w"
  by (simp add: nonzero_mask_def nrows_def)

text \<open>
  Claim C1. For ROI index \<open>i\<close>, \<open>compute_denominator\<close> keeps the rows \<open>j\<close> of
  \<open>chunk_data\<close> in the support of \<open>chunk_masks[i]\<close>, scales row \<open>j\<close> by
  \<open>chunk_weights[i][j]\<close>, then keeps the columns \<open>k\<close> in the support of
  \<open>brain_masks[i]\<close>, scales column \<open>k\<close> by \<open>brain_weights[i][k]\<close>, and returns the sum of
  all entries that remain: the chunk mask ranges over the first axis of \<open>chunk_data\<close> and
  the brain mask over the second.
\<close>

theorem compute_denominator_masked_sum:
  assumes "wf_matrix brain_weights" and "shape brain_weights = (R, B)"
    and "wf_matrix chunk_weights" and "shape chunk_weights = (R, C)"
    and "wf_matrix brain_masks" and "shape brain_masks = (R, B)"
    and "wf_matrix chunk_masks" and "shape chunk_masks = (R, C)"
    and "wf_matrix chunk_data" and "shape chunk_data = (C, B)"
    and "i < R"
  shows "compute_denominator brain_weights chunk_weights brain_masks chunk_masks chunk_data i =
         Inr (\<Sum>j\<in>{j. j < C \<and> rows chunk_masks ! i ! j}.
                \<Sum>k\<in>{k. k < B \<and> rows brain_masks ! i ! k}.
                  rows brain_weights ! i ! k * (rows chunk_weights ! i ! j * rows chunk_data ! j ! k))"
proof -
  from assms have dims: "nrows brain_weights = R" "ncols brain_weights = B"
      "nrows chunk_weights = R" "ncols chunk_weights = C"
      "nrows brain_masks = R" "ncols brain_masks = B"
      "nrows chunk_masks = R" "ncols chunk_masks = C"
      "nrows chunk_data = C" "ncols chunk_data = B"
    by (simp_all add: shape_def)
  show ?thesis
    using assms(1,3,5,7,9,11) dims
    by (intro compute_denominator_eval) (simp_all add: wf_matrix_nth)
qed

theorem compute_denominator_masked_sum_witness:
  "wf_matrix \<lparr>ncols = 2, rows = [[5, 3 :: real]]\<rparr> \<and>
   shape \<lparr>ncols = 2, rows = [[5, 3 :: real]]\<rparr> = (1, 2) \<and>
   wf_matrix \<lparr>ncols = 2, rows = [[2, 7 :: real]]\<rparr> \<and>
   shape \<lparr>ncols = 2, rows = [[2, 7 :: real]]\<rparr> = (1, 2) \<and>
   wf_matrix \<lparr>ncols = 2, rows = [[False, True]]\<rparr> \<and>
   shape \<lparr>ncols = 2, rows = [[False, True]]\<rparr> = (1, 2) \<and>
   wf_matrix \<lparr>ncols = 2, rows = [[True, False]]\<rparr> \<and>
   shape \<lparr>ncols = 2, rows = [[True, False]]\<rparr> = (1, 2) \<and>
   wf_matrix \<lparr>ncols = 2, rows = [[1, 2], [3, 4 :: real]]\<rparr> \<and>
   shape \<lparr>ncols = 2, rows = [[1, 2], [3, 4 :: real]]\<rparr> = (2, 2) \<and>
   (0 :: nat) < 1 \<and>
   compute_denominator \<lparr>ncols = 2, rows = [[5, 3]]\<rparr> \<lparr>ncols = 2, rows = [[2, 7]]\<rparr>
     \<lparr>ncols = 2, rows = [[False, True]]\<rparr> \<lparr>ncols = 2, rows = [[True, False]]\<rparr>
     \<lparr>ncols = 2, rows = [[1, 2], [3, 4]]\<rparr> 0 = Inr 12"
proof -
  let ?bw = "\<lparr>ncols = 2, rows = [[5, 3 :: real]]\<rparr>"
  let ?cw = "\<lparr>ncols = 2, rows = [[2, 7 :: real]]\<rparr>"
  let ?bm = "\<lparr>ncols = 2, rows = [[False, True]]\<rparr>"
  let ?cm = "\<lparr>ncols = 2, rows = [[True, False]]\<rparr>"
  let ?d = "\<lparr>ncols = 2, rows = [[1, 2], [3, 4 :: real]]\<rparr>"
  have h: "wf_matrix ?bw" "shape ?bw = (1, 2)" "wf_matrix ?cw" "shape ?cw = (1, 2)"
    "wf_matrix ?bm" "shape ?bm = (1, 2)" "wf_matrix ?cm" "shape ?cm = (1, 2)"
    "wf_matrix ?d" "shape ?d = (2, 2)" "(0 :: nat) < 1"
    by (simp_all add: wf_matrix_def shape_def nrows_def)
  have s1: "{j. j < (2 :: nat) \<and> [True, False] ! j} = {0}"
    by (auto simp: nth_Cons' less_2_cases_iff)
  have s2: "{k. k < (2 :: nat) \<and> [False, True] ! k} = {1}"
    by (auto simp: nth_Cons' less_2_cases_iff)
  have "compute_denominator ?bw ?cw ?bm ?cm ?d 0 = Inr 12"
    using compute_denominator_masked_sum [OF h] by (simp add: s1 s2)
  with h show ?thesis by blast
qed

text \<open>
  Claim C10. When the masks are the nonzero masks of the weights, as \<open>process_chunk\<close>
  builds them, \<open>compute_denominator\<close> returns the full bilinear form: the sum over all
  \<open>j < C\<close> and \<open>k < B\<close> of \<open>chunk_weights[i][j] * chunk_data[j][k] * brain_weights[i][k]\<close>.
  The masks only leave out terms that are zero.
\<close>

theorem compute_denominator_unmasked_bilinear_form:
  assumes "wf_matrix brain_weights" and "shape brain_weights = (R, B)"
    and "wf_matrix chunk_weights" and "shape chunk_weights = (R, C)"
    and "wf_matrix chunk_data" and "shape chunk_data = (C, B)"
    and "i < R"
  shows "compute_denominator brain_weights chunk_weights
           (nonzero_mask brain_weights) (nonzero_mask chunk_weights) chunk_data i =
         Inr (\<Sum>j<C. \<Sum>k<B. rows chunk_weights ! i ! j * rows chunk_data ! j ! k * rows brain_weights ! i ! k)"
proof -
  from assms have dims: "nrows brain_weights = R" "ncols brain_weights = B"
      "nrows chunk_weights = R" "ncols chunk_weights = C"
      "nrows chunk_data = C" "ncols chunk_data = B"
    by (simp_all add: shape_def)
  let ?cw = "rows chunk_weights ! i" and ?bw = "rows brain_weights ! i"
  let ?cm = "rows (nonzero_mask chunk_weights) ! i" and ?bm = "rows (nonzero_mask brain_weights) ! i"
  let ?d = "rows chunk_data"
  have len: "length ?cw = C" "length ?bw = B"
    using assms(1,3,7) dims by (simp_all add: wf_matrix_nth)
  have cm: "?cm = map (\<lambda>x. x \<noteq> 0) ?cw" and bm: "?bm = map (\<lambda>x. x \<noteq> 0) ?bw"
    using assms(7) dims by (simp_all add: rows_nonzero_mask_nth)
  have eval: "compute_denominator brain_weights chunk_weights
           (nonzero_mask brain_weights) (nonzero_mask chunk_weights) chunk_data i =
         Inr (\<Sum>j\<in>{j. j < C \<and> ?cm ! j}. \<Sum>k\<in>{k. k < B \<and> ?bm ! k}. ?bw ! k * (?cw ! j * ?d ! j ! k))"
    using assms(5,7) dims len
    by (intro compute_denominator_eval) (simp_all add: cm bm)
  have inner: "(\<Sum>k\<in>{k. k < B \<and> ?bm ! k}. ?bw ! k * (?cw ! j * ?d ! j ! k)) =
               (\<Sum>k<B. ?cw ! j * ?d ! j ! k * ?bw ! k)" for j
  proof -
    have "(\<Sum>k\<in>{k. k < B \<and> ?bm ! k}. ?bw ! k * (?cw ! j * ?d ! j ! k)) =
          (\<Sum>k\<in>{..<B}. ?bw ! k * (?cw ! j * ?d ! j ! k))"
      using len by (intro sum.mono_neutral_left) (auto simp: bm)
    then show ?thesis by (simp add: mult.commute)
  qed
  have outer: "(\<Sum>j\<in>{j. j < C \<and> ?cm ! j}. \<Sum>k<B. ?cw ! j * ?d ! j ! k * ?bw ! k) =
               (\<Sum>j<C. \<Sum>k<B. ?cw ! j * ?d ! j ! k * ?bw ! k)"
    using len by (intro sum.mono_neutral_left) (auto simp: cm)
  show ?thesis
    by (simp only: eval inner outer)
qed

theorem compute_denominator_unmasked_bilinear_form_witness:
  "wf_matrix \<lparr>ncols = 2, rows = [[0, 3 :: real]]\<rparr> \<and>
   shape \<lparr>ncols = 2, rows = [[0, 3 :: real]]\<rparr> = (1, 2) \<and>
   wf_matrix \<lparr>ncols = 2, rows = [[2, 0 :: real]]\<rparr> \<and>
   shape \<lparr>ncols = 2, rows = [[2, 0 :: real]]\<rparr> = (1, 2) \<and>
   wf_matrix \<lparr>ncols = 2, rows = [[1, 2], [3, 4 :: real]]\<rparr> \<and>
   shape \<lparr>ncols = 2, rows = [[1, 2], [3, 4 :: real]]\<rparr> = (2, 2) \<and>
   (0 :: nat) < 1 \<and>
   compute_denominator \<lparr>ncols = 2, rows = [[0, 3]]\<rparr> \<lparr>ncols = 2, rows = [[2, 0]]\<rparr>
     (nonzero_mask \<lparr>ncols = 2, rows = [[0, 3]]\<rparr>) (nonzero_mask \<lparr>ncols = 2, rows = [[2, 0]]\<rparr>)
     \<lparr>ncols = 2, rows = [[1, 2], [3, 4]]\<rparr> 0 = Inr 12"
proof -
  let ?bw = "\<lparr>ncols = 2, rows = [[0, 3 :: real]]\<rparr>"
  let ?cw = "\<lparr>ncols = 2, rows = [[2, 0 :: real]]\<rparr>"
  let ?d = "\<lparr>ncols = 2, rows = [[1, 2], [3, 4 :: real]]\<rparr>"
  have h: "wf_matrix ?bw" "shape ?bw = (1, 2)" "wf_matrix ?cw" "shape ?cw = (1, 2)"
    "wf_matrix ?d" "shape ?d = (2, 2)" "(0 :: nat) < 1"
    by (simp_all add: wf_matrix_def shape_def nrows_def)
  have "compute_denominator ?bw ?cw (nonzero_mask ?bw) (nonzero_mask ?cw) ?d 0 = Inr 12"
    using compute_denominator_unmasked_bilinear_form [OF h] by (simp add: numeral_2_eq_2)
  with h show ?thesis by blast
qed

section \<open>The chunk processor: the first statistic\<close>









section \<open>The chunk processor: the shape check\<close>

lemma process_type_shape_mismatch:
  assumes "chunk_paths config key = Inr dir"
    and "(int (nrows (np_load w dir chunk label)), int (ncols (np_load w dir chunk label))) \<noteq>
         (cfg_chunk_size config, cfg_brain_size config)"
  shows "process_type w config chunk rois bw cw bm cm n s (key, label) c =
         Inl (TypeError shape_mismatch_message)"
  using assms by (simp add: process_type_def Let_def)

lemma np_array_ok:
  "list_all (\<lambda>x. length x = length r) rs \<Longrightarrow> np_array r rs = Inr \<lparr>ncols = length r, rows = r # rs\<rparr>"
  by (simp add: np_array_def)

text \<open>
  When the projections of the ROIs fit together, a file of the first statistic whose shape
  is not the configured one ends the call with the \<open>TypeError\<close>.
\<close>

lemma process_chunk_avgr_mismatch:
  assumes brain: "list_all (\<lambda>x. length x = length (brain_transform w (cfg_mask config) roi))
                    (map (brain_transform w (cfg_mask config)) others)"
    and chunk: "list_all (\<lambda>x. length x = length (chunk_transform w (cfg_chunk_idx config) chunk roi))
                    (map (chunk_transform w (cfg_chunk_idx config) chunk) others)"
    and norm: "length (chunk_transform w (cfg_chunk_idx config) chunk (cfg_norm config)) =
               length (chunk_transform w (cfg_chunk_idx config) chunk roi)"
    and std: "length (chunk_transform w (cfg_chunk_idx config) chunk (cfg_std config)) =
               length (chunk_transform w (cfg_chunk_idx config) chunk roi)"
    and mismatch: "(int (nrows (np_load w (cfg_avgr config) chunk ''AvgR'')),
                    int (ncols (np_load w (cfg_avgr config) chunk ''AvgR''))) \<noteq>
                   (cfg_chunk_size config, cfg_brain_size config)"
  shows "process_chunk w config chunk (roi # others) = Inl (TypeError shape_mismatch_message)"
proof -
  let ?cw = "\<lparr>ncols = length (chunk_transform w (cfg_chunk_idx config) chunk roi),
               rows = chunk_transform w (cfg_chunk_idx config) chunk roi #
                      map (chunk_transform w (cfg_chunk_idx config) chunk) others\<rparr>"
  have wf: "wf_matrix ?cw"
    using chunk by (simp add: wf_matrix_def)
  have masks: "\<exists>n s. compute_chunk_masks ?cw
      (chunk_transform w (cfg_chunk_idx config) chunk (cfg_norm config))
      (chunk_transform w (cfg_chunk_idx config) chunk (cfg_std config)) = Inr (n, s)"
    using compute_chunk_masks_ok [OF wf] norm std by simp
  have path: "chunk_paths config ''avgr'' = Inr (cfg_avgr config)"
    by (simp add: chunk_paths_def)
  note first = process_type_shape_mismatch [OF path mismatch]
  from masks obtain n s where ns: "compute_chunk_masks ?cw
      (chunk_transform w (cfg_chunk_idx config) chunk (cfg_norm config))
      (chunk_transform w (cfg_chunk_idx config) chunk (cfg_std config)) = Inr (n, s)"
    by blast
  show ?thesis
    by (simp add: process_chunk_def np_array_ok [OF brain] np_array_ok [OF chunk] ns
        chunk_types_def first)
qed

text \<open>
  Claim C2. A chunk file of shape \<open>(4, 4)\<close> read under a configuration that declares
  chunk size 4 and brain size 3 makes \<open>process_chunk\<close> raise a \<open>TypeError\<close> before any
  statistic is computed. The message it carries is the fixed text of the source's string
  literal: it names neither the expected shape \<open>(4, 3)\<close> nor the actual shape, and a file
  of shape \<open>(2, 5)\<close> gives the same message.
\<close>

theorem process_chunk_shape_mismatch_message:
  "process_chunk (example_world file_4_4) example_config 0 [''a'', ''b''] =
     Inl (TypeError ''Chunk expected to have shape {(config.get('chunk_size'), config.get('brain_size'))} but instead has shape {np.shape(chunk_data)}!'') \<and>
   process_chunk (example_world file_2_5) example_config 0 [''a'', ''b''] =
     Inl (TypeError ''Chunk expected to have shape {(config.get('chunk_size'), config.get('brain_size'))} but instead has shape {np.shape(chunk_data)}!'')"
proof -
  have "process_chunk (example_world loaded) example_config 0 [''a'', ''b''] =
      Inl (TypeError shape_mismatch_message)"
    if "(int (nrows loaded), int (ncols loaded)) \<noteq> (4, 3)" for loaded
    using that
    by (intro process_chunk_avgr_mismatch) (simp_all add: example_world_def example_config_def)
  then show ?thesis
    by (simp add: shape_mismatch_message_def file_4_4_def file_2_5_def nrows_def)
qed

section \<open>The consolidator: sums, stores and separation\<close>

lemma map2_add_commute: "map2 (+) xs ys = map2 (+) ys (xs :: real list)"
proof (induction xs arbitrary: ys)
  case Nil
  then show ?case by simp
next
  case (Cons x xs)
  then show ?case by (cases ys) (simp_all add: add.commute)
qed

lemma map2_add_assoc: "map2 (+) (map2 (+) xs ys) zs = map2 (+) xs (map2 (+) ys (zs :: real list))"
proof (induction xs arbitrary: ys zs)
  case Nil
  then show ?case by simp
next
  case (Cons x xs)
  then show ?case by (cases ys; cases zs) (simp_all add: add.assoc)
qed

lemma map2_add_map_left: "map2 (+) (map (\<lambda>x. x + c) xs) ys = map2 (+) xs (map (\<lambda>y. c + y) (ys :: real list))"
proof (induction xs arbitrary: ys)
  case Nil
  then show ?case by simp
next
  case (Cons x xs)
  then show ?case by (cases ys) (simp_all add: add.assoc)
qed

lemma map2_add_map_right: "map2 (+) xs (map (\<lambda>y. y + c) ys) = map (\<lambda>z. z + c) (map2 (+) xs (ys :: real list))"
proof (induction xs arbitrary: ys)
  case Nil
  then show ?case by simp
next
  case (Cons x xs)
  then show ?case by (cases ys) (simp_all add: add.assoc)
qed

lemma map2_add_map_left': "map2 (+) (map (\<lambda>x. c + x) xs) ys = map (\<lambda>z. c + z) (map2 (+) xs (ys :: real list))"
proof (induction xs arbitrary: ys)
  case Nil
  then show ?case by simp
next
  case (Cons x xs)
  then show ?case by (cases ys) (simp_all add: add.assoc)
qed

lemma vadd_commute: "vadd x y = vadd y x"
  by (cases x; cases y) (simp_all add: map2_add_commute [of _ "_ :: real list"] add.commute)

lemma vadd_assoc: "vadd (vadd x y) z = vadd x (vadd y z)"
  by (cases x; cases y; cases z)
     (simp_all add: map2_add_assoc map2_add_map_left map2_add_map_right map2_add_map_left'
        add.assoc comp_def)

lemma lift_add_commute:
  assumes "\<And>x y. f x y = f y x"
  shows "lift_add f a b = lift_add f b a"
  by (rule ext) (simp add: lift_add_def assms split: option.splits)

lemma lift_add_assoc:
  assumes "\<And>x y z. f (f x y) z = f x (f y z)"
  shows "lift_add f (lift_add f a b) c = lift_add f a (lift_add f b c)"
  by (rule ext) (simp add: lift_add_def assms split: option.splits)

lemma lift_add_empty [simp]: "lift_add f Map.empty a = a" "lift_add f a Map.empty = a"
  by (rule ext, simp add: lift_add_def split: option.splits)+

lemma vmerge_commute: "vmerge a b = vmerge b a"
  unfolding vmerge_def by (intro lift_add_commute vadd_commute)

lemma vmerge_assoc: "vmerge (vmerge a b) c = vmerge a (vmerge b c)"
  unfolding vmerge_def by (intro lift_add_assoc vadd_assoc)

lemma vmerge_empty [simp]: "vmerge Map.empty a = a" "vmerge a Map.empty = a"
  by (simp_all add: vmerge_def)

lemma vshape_vadd: "vshape x = vshape y \<Longrightarrow> vshape (vadd x y) = vshape x"
  by (cases x; cases y) (simp_all add: vshape_def)

lemma conforms_empty [simp]: "conforms s Map.empty"
  by (simp add: conforms_def)

lemma conforms_vmerge:
  assumes "conforms s a" and "conforms s b"
  shows "conforms s (vmerge a b)"
  unfolding conforms_def
proof (intro allI impI)
  fix roi r k x
  assume r: "vmerge a b roi = Some r" and x: "r k = Some x"
  show "vshape x = s roi k"
  proof (cases "a roi")
    case None
    then show ?thesis using r x assms(2) by (auto simp: vmerge_def lift_add_def conforms_def)
  next
    case (Some ra)
    show ?thesis
    proof (cases "b roi")
      case None
      then show ?thesis using Some r x assms(1) by (auto simp: vmerge_def lift_add_def conforms_def)
    next
      case (Some rb)
      with \<open>a roi = Some ra\<close> r have r_eq: "r = lift_add vadd ra rb"
        by (simp add: vmerge_def lift_add_def)
      show ?thesis
      proof (cases "ra k")
        case None
        then show ?thesis using x r_eq Some assms(2) by (auto simp: lift_add_def conforms_def)
      next
        case xa: (Some xa)
        show ?thesis
        proof (cases "rb k")
          case None
          then show ?thesis using x r_eq xa \<open>a roi = Some ra\<close> assms(1)
            by (auto simp: lift_add_def conforms_def)
        next
          case xb: (Some xb)
          have "vshape xa = s roi k" "vshape xb = s roi k"
            using xa xb \<open>a roi = Some ra\<close> Some assms by (auto simp: conforms_def)
          then show ?thesis
            using x r_eq xa xb vshape_vadd [of xa xb] by (simp add: lift_add_def)
        qed
      qed
    qed
  qed
qed

text \<open>One \<open>+=\<close> on cells of the same shape.\<close>

lemma iadd_same_shape:
  assumes "vshape (deref h x) = vshape (deref h y)"
  shows "\<exists>h' v. iadd h x y = Inr (h', v) \<and>
           deref h' v = vadd (deref h x) (deref h y) \<and>
           cell_addrs (Some v) = cell_addrs (Some x) \<and>
           (\<forall>b. b \<notin> set (cell_addrs (Some x)) \<longrightarrow> cells h' b = cells h b)"
proof (cases x)
  case (Array a)
  then obtain b where y: "y = Array b" and len: "length (cells h a) = length (cells h b)"
    using assms by (cases y) (auto simp: vshape_def deref_def)
  show ?thesis
    using Array y len by (simp add: iadd_def deref_def cell_addrs_def)
next
  case (Number u)
  then obtain v where y: "y = Number v"
    using assms by (cases y) (auto simp: vshape_def deref_def)
  show ?thesis
    using Number y by (simp add: iadd_def deref_def cell_addrs_def)
qed

lemma deref_frame:
  "(\<forall>b\<in>set (cell_addrs (Some x)). cells h' b = cells h b) \<Longrightarrow> deref h' x = deref h x"
  by (cases x) (simp_all add: deref_def cell_addrs_def)

lemma cell_addrs_None [simp]: "cell_addrs None = []"
  by (simp add: cell_addrs_def)

text \<open>The six \<open>+=\<close> of one record, for any list of distinct field names.\<close>

lemma add_fields:
  assumes "distinct ks"
    and "\<forall>k\<in>set ks. \<exists>x y. a k = Some x \<and> c k = Some y \<and> vshape (deref h x) = vshape (deref h y)"
    and "distinct (concat (map (\<lambda>k. cell_addrs (a k)) ks))"
    and "\<forall>k\<in>set ks. \<forall>j\<in>set ks. j \<noteq> k \<longrightarrow> set (cell_addrs (c k)) \<inter> set (cell_addrs (a j)) = {}"
  shows "\<exists>h' a'. for_each (add_field c) ks (h, a) = Inr (h', a') \<and>
           (\<forall>k. cell_addrs (a' k) = cell_addrs (a k)) \<and>
           (\<forall>k. k \<notin> set ks \<longrightarrow> a' k = a k) \<and>
           (\<forall>k\<in>set ks. map_option (deref h') (a' k) =
                           Some (vadd (deref h (the (a k))) (deref h (the (c k))))) \<and>
           (\<forall>b. b \<notin> set (concat (map (\<lambda>k. cell_addrs (a k)) ks)) \<longrightarrow> cells h' b = cells h b)"
  using assms
proof (induction ks arbitrary: h a)
  case Nil
  then show ?case by simp
next
  case (Cons k ks)
  from Cons.prems(2) obtain x y where x: "a k = Some x" and y: "c k = Some y"
    and sh: "vshape (deref h x) = vshape (deref h y)"
    by auto
  from iadd_same_shape [OF sh] obtain h1 v where
    iadd: "iadd h x y = Inr (h1, v)" and
    val: "deref h1 v = vadd (deref h x) (deref h y)" and
    addr: "cell_addrs (Some v) = cell_addrs (Some x)" and
    frame: "\<forall>b. b \<notin> set (cell_addrs (Some x)) \<longrightarrow> cells h1 b = cells h b"
    by blast
  let ?a1 = "a(k \<mapsto> v)"
  have step: "add_field c k (h, a) = Inr (h1, ?a1)"
    using x y iadd by (simp add: add_field_def)
  have k_notin: "k \<notin> set ks" and dist: "distinct ks"
    using Cons.prems(1) by simp_all
  have addrs1: "cell_addrs (?a1 j) = cell_addrs (a j)" for j
    using addr x by simp
  \<comment> \<open>the other cells of both records read the same in the new store\<close>
  have a_same: "deref h1 z = deref h z" if "j \<in> set ks" "a j = Some z" for j z
  proof (rule deref_frame, rule ballI)
    fix b assume b: "b \<in> set (cell_addrs (Some z))"
    have "set (cell_addrs (a k)) \<inter> set (cell_addrs (a j)) = {}"
      using Cons.prems(3) that(1) by auto
    with b that(2) x have "b \<notin> set (cell_addrs (Some x))" by auto
    with frame show "cells h1 b = cells h b" by simp
  qed
  have c_same: "deref h1 z = deref h z" if "j \<in> set ks" "c j = Some z" for j z
  proof (rule deref_frame, rule ballI)
    fix b assume b: "b \<in> set (cell_addrs (Some z))"
    have "j \<noteq> k" using that(1) k_notin by auto
    then have "set (cell_addrs (c j)) \<inter> set (cell_addrs (a k)) = {}"
      using Cons.prems(4) that(1) by auto
    with b that(2) x have "b \<notin> set (cell_addrs (Some x))" by auto
    with frame show "cells h1 b = cells h b" by simp
  qed
  have p2: "\<forall>j\<in>set ks. \<exists>x y. ?a1 j = Some x \<and> c j = Some y \<and> vshape (deref h1 x) = vshape (deref h1 y)"
  proof
    fix j assume j: "j \<in> set ks"
    with Cons.prems(2) obtain xj yj where xj: "a j = Some xj" "c j = Some yj"
      "vshape (deref h xj) = vshape (deref h yj)"
      by auto
    have "j \<noteq> k" using j k_notin by auto
    then show "\<exists>x y. ?a1 j = Some x \<and> c j = Some y \<and> vshape (deref h1 x) = vshape (deref h1 y)"
      using xj a_same [OF j xj(1)] c_same [OF j xj(2)] by simp
  qed
  have p3: "distinct (concat (map (\<lambda>j. cell_addrs (?a1 j)) ks))"
    using Cons.prems(3) by (simp only: addrs1) simp
  have p4: "\<forall>i\<in>set ks. \<forall>j\<in>set ks. j \<noteq> i \<longrightarrow> set (cell_addrs (c i)) \<inter> set (cell_addrs (?a1 j)) = {}"
    using Cons.prems(4) by (simp only: addrs1) simp
  from Cons.IH [OF dist p2 p3 p4] obtain h' a' where
    rest: "for_each (add_field c) ks (h1, ?a1) = Inr (h', a')" and
    r_addr: "\<forall>j. cell_addrs (a' j) = cell_addrs (?a1 j)" and
    r_same: "\<forall>j. j \<notin> set ks \<longrightarrow> a' j = ?a1 j" and
    r_val: "\<forall>j\<in>set ks. map_option (deref h') (a' j) =
                Some (vadd (deref h1 (the (?a1 j))) (deref h1 (the (c j))))" and
    r_frame: "\<forall>b. b \<notin> set (concat (map (\<lambda>j. cell_addrs (?a1 j)) ks)) \<longrightarrow> cells h' b = cells h1 b"
    by blast
  have run: "for_each (add_field c) (k # ks) (h, a) = Inr (h', a')"
    using step rest by simp
  have c1: "\<forall>j. cell_addrs (a' j) = cell_addrs (a j)"
    using r_addr addrs1 by simp
  have c2: "\<forall>j. j \<notin> set (k # ks) \<longrightarrow> a' j = a j"
    using r_same by simp
  have c3: "\<forall>j\<in>set (k # ks). map_option (deref h') (a' j) =
                Some (vadd (deref h (the (a j))) (deref h (the (c j))))"
  proof
    fix j assume j: "j \<in> set (k # ks)"
    show "map_option (deref h') (a' j) = Some (vadd (deref h (the (a j))) (deref h (the (c j))))"
    proof (cases "j = k")
      case True
      have a'k: "a' k = Some v" using r_same k_notin by simp
      have "deref h' v = deref h1 v"
      proof (rule deref_frame, rule ballI)
        fix b assume "b \<in> set (cell_addrs (Some v))"
        then have "b \<in> set (cell_addrs (a k))" using addr x by simp
        moreover have "set (cell_addrs (a k)) \<inter> set (concat (map (\<lambda>j. cell_addrs (a j)) ks)) = {}"
          using Cons.prems(3) by simp
        ultimately have "b \<notin> set (concat (map (\<lambda>j. cell_addrs (?a1 j)) ks))"
          by (simp only: addrs1) blast
        with r_frame show "cells h' b = cells h1 b" by simp
      qed
      then show ?thesis
        using True a'k val x y by simp
    next
      case False
      with j have j': "j \<in> set ks" by simp
      from Cons.prems(2) j' obtain xj yj where xj: "a j = Some xj" "c j = Some yj"
        by auto
      from r_val j' have "map_option (deref h') (a' j) =
          Some (vadd (deref h1 (the (?a1 j))) (deref h1 (the (c j))))"
        by (rule bspec)
      then show ?thesis
        using False xj a_same [OF j' xj(1)] c_same [OF j' xj(2)] by simp
    qed
  qed
  have c4: "\<forall>b. b \<notin> set (concat (map (\<lambda>j. cell_addrs (a j)) (k # ks))) \<longrightarrow> cells h' b = cells h b"
  proof (intro allI impI)
    fix b assume b: "b \<notin> set (concat (map (\<lambda>j. cell_addrs (a j)) (k # ks)))"
    then have "b \<notin> set (concat (map (\<lambda>j. cell_addrs (?a1 j)) ks))"
      by (simp only: addrs1) simp
    with r_frame have "cells h' b = cells h1 b" by simp
    moreover from b x have "b \<notin> set (cell_addrs (Some x))" by simp
    with frame have "cells h1 b = cells h b" by simp
    ultimately show "cells h' b = cells h b" by simp
  qed
  from run c1 c2 c3 c4 show ?case by blast
qed

lemma copy_fields_loop:
  assumes "\<forall>k\<in>set ks. c k \<noteq> None"
  shows "for_each (copy_field c) ks acc = Inr (\<lambda>k. if k \<in> set ks then c k else acc k)"
  using assms
proof (induction ks arbitrary: acc)
  case Nil
  then show ?case by simp
next
  case (Cons k ks)
  then obtain v where v: "c k = Some v" by auto
  have "for_each (copy_field c) (k # ks) acc = for_each (copy_field c) ks (acc(k \<mapsto> v))"
    using v by (simp add: copy_field_def)
  also have "\<dots> = Inr (\<lambda>j. if j \<in> set ks then c j else (acc(k \<mapsto> v)) j)"
    using Cons by simp
  also have "(\<lambda>j. if j \<in> set ks then c j else (acc(k \<mapsto> v)) j) =
             (\<lambda>j. if j \<in> set (k # ks) then c j else acc j)"
    using v by auto
  finally show ?case .
qed

lemma complete_entryD: "complete_entry r \<Longrightarrow> k \<in> set field_names \<Longrightarrow> \<exists>x. r k = Some x"
  by (auto simp: complete_entry_def list_all_iff)

lemma copy_fields:
  assumes "complete_entry c"
  shows "for_each (copy_field c) field_names Map.empty =
         Inr (\<lambda>k. if k \<in> set field_names then c k else None)"
  using copy_fields_loop [of field_names c Map.empty] assms
  by (auto simp: complete_entry_def list_all_iff)

lemma entry_addrs_cong:
  "(\<And>k. k \<in> set field_names \<Longrightarrow> cell_addrs (r' k) = cell_addrs (r k)) \<Longrightarrow>
     entry_addrs r' = entry_addrs r"
  unfolding entry_addrs_def by (intro arg_cong [where f = concat] map_cong) simp_all

lemma view_entry_cong:
  "(\<And>k. k \<in> set field_names \<Longrightarrow> map_option (deref h') (r' k) = map_option (deref h) (r k)) \<Longrightarrow>
     view_entry h' r' = view_entry h r"
  by (rule ext) (simp add: view_entry_def)

lemma complete_entry_cong:
  "(\<And>k. k \<in> set field_names \<Longrightarrow> (r' k = None) = (r k = None)) \<Longrightarrow>
     complete_entry r' = complete_entry r"
  unfolding complete_entry_def list_all_iff by (intro ball_cong refl) simp

lemma cell_addrs_subset_entry:
  "k \<in> set field_names \<Longrightarrow> set (cell_addrs (r k)) \<subseteq> set (entry_addrs r)"
  by (auto simp: entry_addrs_def)

lemma view_entry_frame:
  assumes "\<forall>b\<in>set (entry_addrs r). cells h' b = cells h b"
  shows "view_entry h' r = view_entry h r"
proof (rule view_entry_cong)
  fix k assume k: "k \<in> set field_names"
  show "map_option (deref h') (r k) = map_option (deref h) (r k)"
  proof (cases "r k")
    case None
    then show ?thesis by simp
  next
    case (Some x)
    have "deref h' x = deref h x"
      using assms cell_addrs_subset_entry [OF k, of r] Some
      by (intro deref_frame) auto
    with Some show ?thesis by simp
  qed
qed

lemma dict_addrs_Nil [simp]: "dict_addrs [] = []"
  by (simp add: dict_addrs_def)

lemma dict_addrs_Cons [simp]: "dict_addrs ((roi, r) # d) = entry_addrs r @ dict_addrs d"
  by (simp add: dict_addrs_def)

lemma dict_addrs_append [simp]: "dict_addrs (d @ e) = dict_addrs d @ dict_addrs e"
  by (simp add: dict_addrs_def)

lemma entry_addrs_subset_dict:
  "map_of d roi = Some r \<Longrightarrow> set (entry_addrs r) \<subseteq> set (dict_addrs d)"
  by (induction d) (auto split: if_splits)

lemma view_Nil [simp]: "view h [] = Map.empty"
  by (simp add: view_def)

lemma view_update: "view h (AList.update roi r d) = (view h d)(roi \<mapsto> view_entry h r)"
  by (rule ext) (simp add: view_def update_conv')

lemma view_frame:
  assumes "\<forall>b\<in>set (dict_addrs d). cells h' b = cells h b"
  shows "view h' d = view h d"
proof (rule ext)
  fix roi
  show "view h' d roi = view h d roi"
  proof (cases "map_of d roi")
    case None
    then show ?thesis by (simp add: view_def)
  next
    case (Some r)
    have "view_entry h' r = view_entry h r"
      using assms entry_addrs_subset_dict [OF Some] by (intro view_entry_frame) auto
    with Some show ?thesis by (simp add: view_def)
  qed
qed

lemma update_absent: "map_of d roi = None \<Longrightarrow> AList.update roi r d = d @ [(roi, r)]"
  by (induction d) (auto split: if_splits)

lemma dict_addrs_update_present:
  "map_of d roi = Some a \<Longrightarrow> entry_addrs a' = entry_addrs a \<Longrightarrow>
     dict_addrs (AList.update roi a' d) = dict_addrs d"
  by (induction d) (auto split: if_splits)

lemma proper_dict_update:
  assumes "proper_dict d" and "complete_entry r"
  shows "proper_dict (AList.update roi r d)"
proof -
  have "list_all (\<lambda>p. complete_entry (snd p)) (AList.update roi r d)"
    if "list_all (\<lambda>p. complete_entry (snd p)) d"
    using that assms(2) by (induction d) auto
  then show ?thesis
    using assms(1) by (simp add: proper_dict_def distinct_update)
qed

lemma proper_dict_Nil [simp]: "proper_dict []"
  by (simp add: proper_dict_def)

lemma proper_dict_entry: "proper_dict d \<Longrightarrow> map_of d roi = Some r \<Longrightarrow> complete_entry r"
  by (auto simp: proper_dict_def list_all_iff dest!: map_of_SomeD)

lemma distinct_entries:
  "distinct (dict_addrs d) \<Longrightarrow> map_of d roi = Some r \<Longrightarrow> distinct (entry_addrs r)"
  by (induction d) (auto split: if_splits)

lemma view_entry_field:
  "k \<in> set field_names \<Longrightarrow> r k = Some x \<Longrightarrow> view_entry h r k = Some (deref h x)"
  by (simp add: view_entry_def)

lemma conforms_field:
  assumes "conforms s (view h d)" and "map_of d roi = Some r" and "k \<in> set field_names" and "r k = Some x"
  shows "vshape (deref h x) = s roi k"
proof -
  have "view h d roi = Some (view_entry h r)"
    using assms(2) by (simp add: view_def)
  moreover have "view_entry h r k = Some (deref h x)"
    using assms(3,4) by (rule view_entry_field)
  ultimately show ?thesis
    using assms(1) unfolding conforms_def by blast
qed

lemma distinct_field_names: "distinct field_names"
  by (simp add: field_names_def)

lemma view_single: "view h [(roi, r)] = [roi \<mapsto> view_entry h r]"
  by (rule ext) (simp add: view_def)

lemma vmerge_single_absent:
  "a roi = None \<Longrightarrow> vmerge a [roi \<mapsto> e] = a(roi \<mapsto> e)"
  by (rule ext) (simp add: vmerge_def lift_add_def split: option.splits)

lemma vmerge_single_present:
  "a roi = Some e0 \<Longrightarrow> vmerge a [roi \<mapsto> e] = a(roi \<mapsto> lift_add vadd e0 e)"
  by (rule ext) (simp add: vmerge_def lift_add_def split: option.splits)

lemma view_Cons:
  assumes "roi \<notin> fst ` set d"
  shows "view h ((roi, r) # d) = vmerge [roi \<mapsto> view_entry h r] (view h d)"
proof (rule ext)
  fix x
  have "map_of d roi = None"
    using assms by (simp add: map_of_eq_None_iff)
  then show "view h ((roi, r) # d) x = vmerge [roi \<mapsto> view_entry h r] (view h d) x"
    by (simp add: view_def vmerge_def lift_add_def split: option.splits)
qed

text \<open>One round of the loop of \<open>consolidate\<close>, for a record that shares no array with the atlas.\<close>

lemma consolidate_roi_step:
  assumes c: "map_of c roi = Some r" and complete: "complete_entry r"
    and atlas: "proper_dict atlas"
    and sep: "distinct (dict_addrs atlas @ entry_addrs r)"
    and sa: "conforms s (view h atlas)" and sr: "conforms s (view h [(roi, r)])"
  shows "\<exists>h1 atlas1. consolidate_roi c roi (h, atlas) = Inr (h1, atlas1) \<and> proper_dict atlas1 \<and>
           view h1 atlas1 = vmerge (view h atlas) (view h [(roi, r)]) \<and>
           set (dict_addrs atlas) \<subseteq> set (dict_addrs atlas1) \<and>
           set (dict_addrs atlas1) \<subseteq> set (dict_addrs atlas) \<union> set (entry_addrs r) \<and>
           distinct (dict_addrs atlas1) \<and>
           (\<forall>b. b \<notin> set (dict_addrs atlas) \<longrightarrow> cells h1 b = cells h b)"
proof (cases "map_of atlas roi")
  case None
  let ?r' = "\<lambda>k. if k \<in> set field_names then r k else None"
  let ?atlas1 = "atlas @ [(roi, ?r')]"
  have run: "consolidate_roi c roi (h, atlas) = Inr (h, ?atlas1)"
    using c None copy_fields [OF complete] by (simp add: consolidate_roi_def update_absent)
  have addrs: "entry_addrs ?r' = entry_addrs r"
    by (rule entry_addrs_cong) simp
  have "complete_entry ?r' = complete_entry r"
    by (rule complete_entry_cong) simp
  then have proper: "proper_dict ?atlas1"
    using atlas complete proper_dict_update [of atlas ?r' roi] None by (simp add: update_absent)
  have "view_entry h ?r' = view_entry h r"
    by (rule view_entry_cong) simp
  then have "view h ?atlas1 = (view h atlas)(roi \<mapsto> view_entry h r)"
    using view_update [of h roi ?r' atlas] None by (simp add: update_absent)
  moreover have "view h atlas roi = None"
    using None by (simp add: view_def)
  ultimately have view: "view h ?atlas1 = vmerge (view h atlas) (view h [(roi, r)])"
    by (simp add: view_single vmerge_single_absent)
  show ?thesis
    using run proper view sep by (auto simp: addrs)
next
  case (Some a)
  have a_complete: "complete_entry a"
    using atlas Some by (rule proper_dict_entry)
  have a_sub: "set (entry_addrs a) \<subseteq> set (dict_addrs atlas)"
    using Some by (rule entry_addrs_subset_dict)
  have shapes: "\<forall>k\<in>set field_names. \<exists>x y. a k = Some x \<and> r k = Some y \<and>
      vshape (deref h x) = vshape (deref h y)"
  proof
    fix k assume k: "k \<in> set field_names"
    from complete_entryD [OF a_complete k] obtain x where x: "a k = Some x" by blast
    from complete_entryD [OF complete k] obtain y where y: "r k = Some y" by blast
    have "vshape (deref h x) = s roi k"
      using sa Some k x by (rule conforms_field)
    moreover have "vshape (deref h y) = s roi k"
      using sr _ k y by (rule conforms_field) simp
    ultimately show "\<exists>x y. a k = Some x \<and> r k = Some y \<and> vshape (deref h x) = vshape (deref h y)"
      using x y by simp
  qed
  have sep1: "distinct (concat (map (\<lambda>k. cell_addrs (a k)) field_names))"
    using distinct_entries [OF _ Some] sep by (simp add: entry_addrs_def)
  have disjoint: "set (entry_addrs r) \<inter> set (entry_addrs a) = {}"
    using sep a_sub by auto
  have sep2: "\<forall>k\<in>set field_names. \<forall>j\<in>set field_names. j \<noteq> k \<longrightarrow>
      set (cell_addrs (r k)) \<inter> set (cell_addrs (a j)) = {}"
    using disjoint cell_addrs_subset_entry [of _ r] cell_addrs_subset_entry [of _ a] by blast
  from add_fields [OF distinct_field_names shapes sep1 sep2] obtain h1 a1 where
    loop: "for_each (add_field r) field_names (h, a) = Inr (h1, a1)" and
    addr: "\<forall>k. cell_addrs (a1 k) = cell_addrs (a k)" and
    vals: "\<forall>k\<in>set field_names. map_option (deref h1) (a1 k) =
             Some (vadd (deref h (the (a k))) (deref h (the (r k))))" and
    frame: "\<forall>b. b \<notin> set (entry_addrs a) \<longrightarrow> cells h1 b = cells h b"
    unfolding entry_addrs_def by blast
  let ?atlas1 = "AList.update roi a1 atlas"
  have run: "consolidate_roi c roi (h, atlas) = Inr (h1, ?atlas1)"
    using c Some loop by (simp add: consolidate_roi_def)
  have addrs1: "entry_addrs a1 = entry_addrs a"
    using addr by (intro entry_addrs_cong) simp
  have dict1: "dict_addrs ?atlas1 = dict_addrs atlas"
    using Some addrs1 by (rule dict_addrs_update_present)
  have "complete_entry a1"
    unfolding complete_entry_def list_all_iff using vals by auto
  then have proper: "proper_dict ?atlas1"
    using atlas by (intro proper_dict_update)
  have frame': "\<forall>b. b \<notin> set (dict_addrs atlas) \<longrightarrow> cells h1 b = cells h b"
    using frame a_sub by auto
  \<comment> \<open>the record of the ROI holds the sums\<close>
  have entry: "view_entry h1 a1 = lift_add vadd (view_entry h a) (view_entry h r)"
  proof (rule ext)
    fix k
    show "view_entry h1 a1 k = lift_add vadd (view_entry h a) (view_entry h r) k"
    proof (cases "k \<in> set field_names")
      case False
      then show ?thesis by (simp add: view_entry_def lift_add_def)
    next
      case True
      from complete_entryD [OF a_complete True] obtain x where x: "a k = Some x" by blast
      from complete_entryD [OF complete True] obtain y where y: "r k = Some y" by blast
      from vals True have "map_option (deref h1) (a1 k) =
          Some (vadd (deref h (the (a k))) (deref h (the (r k))))"
        by (rule bspec)
      then show ?thesis
        using True x y by (simp add: view_entry_def lift_add_def)
    qed
  qed
  \<comment> \<open>the records of the other ROIs read as before\<close>
  have others: "view h1 atlas roi' = view h atlas roi'" if "roi' \<noteq> roi" for roi'
  proof (cases "map_of atlas roi'")
    case None
    then show ?thesis by (simp add: view_def)
  next
    case other: (Some a')
    have "set (entry_addrs a') \<inter> set (entry_addrs a) = {}"
      using sep Some other that
    proof (induction atlas)
      case Nil
      then show ?case by simp
    next
      case (Cons p atlas)
      obtain q e where p: "p = (q, e)" by (cases p)
      show ?case
      proof (cases "q = roi")
        case True
        then have "e = a" "map_of atlas roi' = Some a'"
          using Cons.prems p by auto
        then show ?thesis
          using Cons.prems(1) p entry_addrs_subset_dict [of atlas roi' a'] by auto
      next
        case False
        show ?thesis
        proof (cases "q = roi'")
          case True
          then have "e = a'" "map_of atlas roi = Some a"
            using Cons.prems p False by auto
          then show ?thesis
            using Cons.prems(1) p entry_addrs_subset_dict [of atlas roi a] by auto
        next
          case False
          then show ?thesis
            using Cons p \<open>q \<noteq> roi\<close> by auto
        qed
      qed
    qed
    then have "view_entry h1 a' = view_entry h a'"
      using frame by (intro view_entry_frame) auto
    with other show ?thesis by (simp add: view_def)
  qed
  have view: "view h1 ?atlas1 = vmerge (view h atlas) (view h [(roi, r)])"
  proof (rule ext)
    fix roi'
    have present: "view h atlas roi = Some (view_entry h a)"
      using Some by (simp add: view_def)
    show "view h1 ?atlas1 roi' = vmerge (view h atlas) (view h [(roi, r)]) roi'"
    proof (cases "roi' = roi")
      case True
      then show ?thesis
        using entry present by (simp add: view_update view_single vmerge_single_present)
    next
      case False
      then show ?thesis
        using others [OF False] present
        by (simp add: view_update view_single vmerge_single_present)
    qed
  qed
  show ?thesis
    using run proper view frame' sep by (auto simp: dict1)
qed

lemma conforms_Cons:
  assumes "conforms s (view h ((roi, r) # d))" and "roi \<notin> fst ` set d"
  shows "conforms s (view h [(roi, r)])" and "conforms s (view h d)"
proof -
  have absent: "map_of d roi = None"
    using assms(2) by (simp add: map_of_eq_None_iff)
  show "conforms s (view h [(roi, r)])"
    using assms(1) unfolding conforms_def view_def by (auto split: if_splits)
  show "conforms s (view h d)"
    unfolding conforms_def
  proof (intro allI impI)
    fix roi' e k x
    assume e: "view h d roi' = Some e" and x: "e k = Some x"
    then have "roi' \<noteq> roi" using absent by (auto simp: view_def)
    then have "view h ((roi, r) # d) roi' = Some e"
      using e by (simp add: view_def)
    with assms(1) x show "vshape x = s roi' k"
      unfolding conforms_def by blast
  qed
qed

text \<open>The loop of \<open>consolidate\<close> over a part of the contribution that is still to do.\<close>

lemma consolidate_loop:
  assumes "distinct (map fst todo)" and "list_all (\<lambda>p. complete_entry (snd p)) todo"
    and "\<forall>p\<in>set todo. map_of c (fst p) = Some (snd p)"
    and "proper_dict atlas" and "distinct (dict_addrs atlas @ dict_addrs todo)"
    and "conforms s (view h atlas)" and "conforms s (view h todo)"
  shows "\<exists>h' atlas'. for_each (consolidate_roi c) (map fst todo) (h, atlas) = Inr (h', atlas') \<and>
           proper_dict atlas' \<and>
           view h' atlas' = vmerge (view h atlas) (view h todo) \<and>
           set (dict_addrs atlas') \<subseteq> set (dict_addrs atlas) \<union> set (dict_addrs todo) \<and>
           distinct (dict_addrs atlas') \<and>
           (\<forall>b. b \<notin> set (dict_addrs atlas) \<union> set (dict_addrs todo) \<longrightarrow> cells h' b = cells h b)"
  using assms
proof (induction todo arbitrary: h atlas)
  case Nil
  then show ?case by simp
next
  case (Cons p todo)
  obtain roi r where p: "p = (roi, r)" by (cases p)
  have fresh: "roi \<notin> fst ` set todo" and dist: "distinct (map fst todo)"
    using Cons.prems(1) p by auto
  have complete: "complete_entry r" and completes: "list_all (\<lambda>p. complete_entry (snd p)) todo"
    using Cons.prems(2) p by auto
  have c: "map_of c roi = Some r" and cs: "\<forall>p\<in>set todo. map_of c (fst p) = Some (snd p)"
    using Cons.prems(3) p by auto
  have sep: "distinct (dict_addrs atlas @ entry_addrs r)"
    using Cons.prems(5) p by auto
  note sr = conforms_Cons [OF Cons.prems(7) [unfolded p] fresh]
  from consolidate_roi_step [OF c complete Cons.prems(4) sep Cons.prems(6) sr(1)]
  obtain h1 atlas1 where
    step: "consolidate_roi c roi (h, atlas) = Inr (h1, atlas1)" and
    proper1: "proper_dict atlas1" and
    view1: "view h1 atlas1 = vmerge (view h atlas) (view h [(roi, r)])" and
    sub1: "set (dict_addrs atlas1) \<subseteq> set (dict_addrs atlas) \<union> set (entry_addrs r)" and
    dist1: "distinct (dict_addrs atlas1)" and
    frame1: "\<forall>b. b \<notin> set (dict_addrs atlas) \<longrightarrow> cells h1 b = cells h b"
    by blast
  have todo_same: "view h1 todo = view h todo"
    using frame1 Cons.prems(5) p by (intro view_frame) auto
  have sep': "distinct (dict_addrs atlas1 @ dict_addrs todo)"
    using dist1 sub1 Cons.prems(5) p by auto
  have sa1: "conforms s (view h1 atlas1)"
    unfolding view1 using Cons.prems(6) sr(1) by (rule conforms_vmerge)
  have st1: "conforms s (view h1 todo)"
    using sr(2) todo_same by simp
  from Cons.IH [OF dist completes cs proper1 sep' sa1 st1]
  obtain h' atlas' where
    rest: "for_each (consolidate_roi c) (map fst todo) (h1, atlas1) = Inr (h', atlas')" and
    proper': "proper_dict atlas'" and
    view': "view h' atlas' = vmerge (view h1 atlas1) (view h1 todo)" and
    sub': "set (dict_addrs atlas') \<subseteq> set (dict_addrs atlas1) \<union> set (dict_addrs todo)" and
    dist': "distinct (dict_addrs atlas')" and
    frame': "\<forall>b. b \<notin> set (dict_addrs atlas1) \<union> set (dict_addrs todo) \<longrightarrow> cells h' b = cells h1 b"
    by blast
  have run: "for_each (consolidate_roi c) (map fst (p # todo)) (h, atlas) = Inr (h', atlas')"
    using step rest p by simp
  have "view h' atlas' = vmerge (view h atlas) (vmerge (view h [(roi, r)]) (view h todo))"
    by (simp add: view' view1 todo_same vmerge_assoc)
  then have view: "view h' atlas' = vmerge (view h atlas) (view h (p # todo))"
    using view_Cons [OF fresh, of h r] by (simp add: p view_single)
  have sub: "set (dict_addrs atlas') \<subseteq> set (dict_addrs atlas) \<union> set (dict_addrs (p # todo))"
    using sub' sub1 p by auto
  have frame: "\<forall>b. b \<notin> set (dict_addrs atlas) \<union> set (dict_addrs (p # todo)) \<longrightarrow> cells h' b = cells h b"
  proof (intro allI impI)
    fix b assume b: "b \<notin> set (dict_addrs atlas) \<union> set (dict_addrs (p # todo))"
    then have "b \<notin> set (dict_addrs atlas1) \<union> set (dict_addrs todo)"
      using sub1 p by auto
    with frame' have "cells h' b = cells h1 b" by simp
    moreover from b frame1 have "cells h1 b = cells h b" by simp
    ultimately show "cells h' b = cells h b" by simp
  qed
  from run proper' view sub dist' frame show ?case by blast
qed

text \<open>
  One call of \<open>consolidate\<close> on a contribution that shares no array with the atlas: the
  atlas then reads as the field-wise sum of what it read before and the contribution.
\<close>

lemma consolidate_merge:
  assumes "proper_dict c" and "proper_dict atlas"
    and "distinct (dict_addrs atlas @ dict_addrs c)"
    and "conforms s (view h atlas)" and "conforms s (view h c)"
  shows "\<exists>atlas' h'. consolidate c atlas h = Inr (atlas', h') \<and>
           proper_dict atlas' \<and>
           view h' atlas' = vmerge (view h atlas) (view h c) \<and>
           set (dict_addrs atlas') \<subseteq> set (dict_addrs atlas) \<union> set (dict_addrs c) \<and>
           distinct (dict_addrs atlas') \<and>
           (\<forall>b. b \<notin> set (dict_addrs atlas) \<union> set (dict_addrs c) \<longrightarrow> cells h' b = cells h b)"
proof -
  have keys: "distinct (map fst c)" and complete: "list_all (\<lambda>p. complete_entry (snd p)) c"
    using assms(1) by (simp_all add: proper_dict_def)
  have self: "\<forall>p\<in>set c. map_of c (fst p) = Some (snd p)"
    using keys by auto
  from consolidate_loop [OF keys complete self assms(2-5)]
  obtain h' atlas' where
    "for_each (consolidate_roi c) (map fst c) (h, atlas) = Inr (h', atlas')"
    "proper_dict atlas'" "view h' atlas' = vmerge (view h atlas) (view h c)"
    "set (dict_addrs atlas') \<subseteq> set (dict_addrs atlas) \<union> set (dict_addrs c)"
    "distinct (dict_addrs atlas')"
    "\<forall>b. b \<notin> set (dict_addrs atlas) \<union> set (dict_addrs c) \<longrightarrow> cells h' b = cells h b"
    by blast
  then show ?thesis
    by (simp add: consolidate_def)
qed

lemma merge_into_Nil [simp]: "merge_into [] a = a"
  by (simp add: merge_into_def)

lemma merge_into_Cons [simp]: "merge_into (v # vs) a = merge_into vs (vmerge a v)"
  by (simp add: merge_into_def)

lemma merge_into_append [simp]: "merge_into (vs @ ws) a = merge_into ws (merge_into vs a)"
  by (simp add: merge_into_def)

lemma merge_into_start: "merge_into vs a = vmerge a (merge_into vs Map.empty)"
proof (induction vs arbitrary: a)
  case Nil
  then show ?case by simp
next
  case (Cons v vs)
  have "merge_into (v # vs) a = vmerge (vmerge a v) (merge_into vs Map.empty)"
    using Cons [of "vmerge a v"] by simp
  also have "\<dots> = vmerge a (vmerge v (merge_into vs Map.empty))"
    by (rule vmerge_assoc)
  also have "vmerge v (merge_into vs Map.empty) = merge_into (v # vs) Map.empty"
    using Cons [of v] by simp
  finally show ?case .
qed

lemma merge_into_permute:
  assumes "mset vs = mset ws"
  shows "merge_into vs = merge_into ws"
  unfolding merge_into_def
proof (rule fold_multiset_equiv [OF _ assms])
  fix x y :: "string \<rightharpoonup> fields"
  show "(\<lambda>a. vmerge a x) \<circ> (\<lambda>a. vmerge a y) = (\<lambda>a. vmerge a y) \<circ> (\<lambda>a. vmerge a x)"
  proof (rule ext)
    fix a
    have "vmerge (vmerge a y) x = vmerge a (vmerge y x)" by (rule vmerge_assoc)
    also have "\<dots> = vmerge a (vmerge x y)" by (simp add: vmerge_commute)
    also have "\<dots> = vmerge (vmerge a x) y" by (rule vmerge_assoc [symmetric])
    finally show "((\<lambda>a. vmerge a x) \<circ> (\<lambda>a. vmerge a y)) a = ((\<lambda>a. vmerge a y) \<circ> (\<lambda>a. vmerge a x)) a"
      by simp
  qed
qed

lemma merge_into_groups:
  "merge_into (map (\<lambda>g. merge_into g Map.empty) gs) a = merge_into (concat gs) a"
proof (induction gs arbitrary: a)
  case Nil
  then show ?case by simp
next
  case (Cons g gs)
  have "merge_into (map (\<lambda>g. merge_into g Map.empty) (g # gs)) a =
        merge_into (concat gs) (vmerge a (merge_into g Map.empty))"
    using Cons by simp
  also have "vmerge a (merge_into g Map.empty) = merge_into g a"
    by (rule merge_into_start [symmetric])
  finally show ?case by simp
qed

lemma conforms_merge_into:
  assumes "conforms s a" and "\<forall>v\<in>set vs. conforms s v"
  shows "conforms s (merge_into vs a)"
  using assms by (induction vs arbitrary: a) (simp_all add: conforms_vmerge)

text \<open>A sequence of calls of \<open>consolidate\<close> on contributions that share no arrays.\<close>

lemma consolidate_all_merge:
  assumes "\<forall>c\<in>set cs. proper_dict c" and "proper_dict atlas"
    and "distinct (dict_addrs atlas @ concat (map dict_addrs cs))"
    and "conforms s (view h atlas)" and "\<forall>c\<in>set cs. conforms s (view h c)"
  shows "\<exists>atlas' h'. consolidate_all cs atlas h = Inr (atlas', h') \<and>
           proper_dict atlas' \<and>
           view h' atlas' = merge_into (map (view h) cs) (view h atlas) \<and>
           set (dict_addrs atlas') \<subseteq> set (dict_addrs atlas) \<union> set (concat (map dict_addrs cs)) \<and>
           distinct (dict_addrs atlas') \<and>
           (\<forall>b. b \<notin> set (dict_addrs atlas) \<union> set (concat (map dict_addrs cs)) \<longrightarrow>
                 cells h' b = cells h b)"
  using assms
proof (induction cs arbitrary: atlas h)
  case Nil
  then show ?case by simp
next
  case (Cons c cs)
  have sep: "distinct (dict_addrs atlas @ dict_addrs c)"
    using Cons.prems(3) by auto
  from consolidate_merge [OF _ Cons.prems(2) sep Cons.prems(4)] Cons.prems(1,5)
  obtain atlas1 h1 where
    step: "consolidate c atlas h = Inr (atlas1, h1)" and
    proper1: "proper_dict atlas1" and
    view1: "view h1 atlas1 = vmerge (view h atlas) (view h c)" and
    sub1: "set (dict_addrs atlas1) \<subseteq> set (dict_addrs atlas) \<union> set (dict_addrs c)" and
    dist1: "distinct (dict_addrs atlas1)" and
    frame1: "\<forall>b. b \<notin> set (dict_addrs atlas) \<union> set (dict_addrs c) \<longrightarrow> cells h1 b = cells h b"
    by (metis list.set_intros(1))
  have same: "view h1 d = view h d" if "d \<in> set cs" for d
  proof (rule view_frame, rule ballI)
    fix b assume "b \<in> set (dict_addrs d)"
    then have "b \<in> set (concat (map dict_addrs cs))" using that by auto
    then have "b \<notin> set (dict_addrs atlas) \<union> set (dict_addrs c)"
      using Cons.prems(3) by auto
    with frame1 show "cells h1 b = cells h b" by simp
  qed
  have views: "map (view h1) cs = map (view h) cs"
    using same by simp
  have sep': "distinct (dict_addrs atlas1 @ concat (map dict_addrs cs))"
    using dist1 sub1 Cons.prems(3) by auto
  have sa1: "conforms s (view h1 atlas1)"
    unfolding view1 using Cons.prems(4,5) by (intro conforms_vmerge) simp_all
  have sc1: "\<forall>d\<in>set cs. conforms s (view h1 d)"
    using Cons.prems(5) same by simp
  from Cons.IH [OF _ proper1 sep' sa1 sc1] Cons.prems(1)
  obtain atlas' h' where
    rest: "consolidate_all cs atlas1 h1 = Inr (atlas', h')" and
    proper': "proper_dict atlas'" and
    view': "view h' atlas' = merge_into (map (view h1) cs) (view h1 atlas1)" and
    sub': "set (dict_addrs atlas') \<subseteq> set (dict_addrs atlas1) \<union> set (concat (map dict_addrs cs))" and
    dist': "distinct (dict_addrs atlas')" and
    frame': "\<forall>b. b \<notin> set (dict_addrs atlas1) \<union> set (concat (map dict_addrs cs)) \<longrightarrow>
                 cells h' b = cells h1 b"
    by auto
  have run: "consolidate_all (c # cs) atlas h = Inr (atlas', h')"
    using step rest by simp
  have view: "view h' atlas' = merge_into (map (view h) (c # cs)) (view h atlas)"
    by (simp add: view' views view1)
  have sub: "set (dict_addrs atlas') \<subseteq> set (dict_addrs atlas) \<union> set (concat (map dict_addrs (c # cs)))"
    using sub' sub1 by auto
  have frame: "\<forall>b. b \<notin> set (dict_addrs atlas) \<union> set (concat (map dict_addrs (c # cs))) \<longrightarrow>
                 cells h' b = cells h b"
  proof (intro allI impI)
    fix b assume b: "b \<notin> set (dict_addrs atlas) \<union> set (concat (map dict_addrs (c # cs)))"
    then have "b \<notin> set (dict_addrs atlas1) \<union> set (concat (map dict_addrs cs))"
      using sub1 by auto
    with frame' have "cells h' b = cells h1 b" by simp
    moreover from b frame1 have "cells h1 b = cells h b" by simp
    ultimately show "cells h' b = cells h b" by simp
  qed
  from run proper' view sub dist' frame show ?case by blast
qed

lemma mset_concat_map:
  "mset (concat (map f zs)) = sum_mset (image_mset (\<lambda>z. mset (f z)) (mset zs))"
proof -
  have "mset (concat (map f zs)) = sum_list (map (\<lambda>z. mset (f z)) zs)"
    by (simp add: mset_concat comp_def)
  also have "\<dots> = sum_mset (mset (map (\<lambda>z. mset (f z)) zs))"
    by (rule sum_mset_sum_list [symmetric])
  finally show ?thesis by simp
qed

lemma distinct_concat_permute:
  assumes "mset xs = mset ys"
  shows "distinct (concat (map f xs)) \<longleftrightarrow> distinct (concat (map f ys))"
proof (rule mset_eq_imp_distinct_iff)
  show "mset (concat (map f xs)) = mset (concat (map f ys))"
    by (simp only: mset_concat_map assms)
qed

lemma set_concat_permute:
  assumes "mset xs = mset ys"
  shows "set (concat (map f xs)) = set (concat (map f ys))"
  using mset_eq_setD [OF assms] by simp

text \<open>Each group consolidated into an atlas of its own, one group after the other.\<close>

lemma consolidate_groups_merge:
  assumes "\<forall>c\<in>set (concat gs). proper_dict c"
    and "distinct (concat (map dict_addrs (concat gs)))"
    and "\<forall>c\<in>set (concat gs). conforms s (view h c)"
  shows "\<exists>as h'. consolidate_groups gs h = Inr (as, h') \<and>
           (\<forall>a\<in>set as. proper_dict a) \<and>
           map (view h') as = map (\<lambda>g. merge_into (map (view h) g) Map.empty) gs \<and>
           set (concat (map dict_addrs as)) \<subseteq> set (concat (map dict_addrs (concat gs))) \<and>
           distinct (concat (map dict_addrs as)) \<and>
           (\<forall>b. b \<notin> set (concat (map dict_addrs (concat gs))) \<longrightarrow> cells h' b = cells h b)"
  using assms
proof (induction gs arbitrary: h)
  case Nil
  then show ?case by simp
next
  case (Cons g gs)
  have g_proper: "\<forall>c\<in>set g. proper_dict c" and g_conf: "\<forall>c\<in>set g. conforms s (view h c)"
    using Cons.prems(1,3) by auto
  have g_sep: "distinct (dict_addrs [] @ concat (map dict_addrs g))"
    using Cons.prems(2) by simp
  from consolidate_all_merge [OF g_proper _ g_sep _ g_conf]
  obtain a h1 where
    first: "consolidate_all g [] h = Inr (a, h1)" and
    proper_a: "proper_dict a" and
    view_a: "view h1 a = merge_into (map (view h) g) Map.empty" and
    sub_a: "set (dict_addrs a) \<subseteq> set (concat (map dict_addrs g))" and
    dist_a: "distinct (dict_addrs a)" and
    frame_a: "\<forall>b. b \<notin> set (concat (map dict_addrs g)) \<longrightarrow> cells h1 b = cells h b"
    by auto
  have apart: "set (concat (map dict_addrs g)) \<inter> set (concat (map dict_addrs (concat gs))) = {}"
    using Cons.prems(2) by simp
  have same: "view h1 d = view h d" if "d \<in> set (concat gs)" for d
  proof (rule view_frame, rule ballI)
    fix b assume "b \<in> set (dict_addrs d)"
    then have "b \<in> set (concat (map dict_addrs (concat gs)))" using that by auto
    with apart have "b \<notin> set (concat (map dict_addrs g))" by auto
    with frame_a show "cells h1 b = cells h b" by simp
  qed
  have p1: "\<forall>c\<in>set (concat gs). proper_dict c" using Cons.prems(1) by simp
  have p2: "distinct (concat (map dict_addrs (concat gs)))" using Cons.prems(2) by simp
  have p3: "\<forall>c\<in>set (concat gs). conforms s (view h1 c)"
    using Cons.prems(3) same by simp
  from Cons.IH [OF p1 p2 p3] obtain as h2 where
    rest: "consolidate_groups gs h1 = Inr (as, h2)" and
    proper_as: "\<forall>a\<in>set as. proper_dict a" and
    view_as: "map (view h2) as = map (\<lambda>g. merge_into (map (view h1) g) Map.empty) gs" and
    sub_as: "set (concat (map dict_addrs as)) \<subseteq> set (concat (map dict_addrs (concat gs)))" and
    dist_as: "distinct (concat (map dict_addrs as))" and
    frame_as: "\<forall>b. b \<notin> set (concat (map dict_addrs (concat gs))) \<longrightarrow> cells h2 b = cells h1 b"
    by blast
  have run: "consolidate_groups (g # gs) h = Inr (a # as, h2)"
    using first rest by simp
  have "map (\<lambda>g. merge_into (map (view h1) g) Map.empty) gs =
        map (\<lambda>g. merge_into (map (view h) g) Map.empty) gs"
  proof (rule map_cong [OF refl])
    fix g' assume "g' \<in> set gs"
    then have "\<And>d. d \<in> set g' \<Longrightarrow> view h1 d = view h d"
      using same by auto
    then have "map (view h1) g' = map (view h) g'"
      by (intro map_cong refl)
    then show "merge_into (map (view h1) g') Map.empty = merge_into (map (view h) g') Map.empty"
      by (rule arg_cong [where f = "\<lambda>vs. merge_into vs Map.empty"])
  qed
  with view_as have view_as': "map (view h2) as = map (\<lambda>g. merge_into (map (view h) g) Map.empty) gs"
    by simp
  have "view h2 a = view h1 a"
  proof (rule view_frame, rule ballI)
    fix b assume "b \<in> set (dict_addrs a)"
    with sub_a apart have "b \<notin> set (concat (map dict_addrs (concat gs)))" by auto
    with frame_as show "cells h2 b = cells h1 b" by simp
  qed
  with view_a view_as' have views:
    "map (view h2) (a # as) = map (\<lambda>g. merge_into (map (view h) g) Map.empty) (g # gs)"
    by simp
  have sub: "set (concat (map dict_addrs (a # as))) \<subseteq> set (concat (map dict_addrs (concat (g # gs))))"
    using sub_a sub_as by auto
  have "set (dict_addrs a) \<inter> set (concat (map dict_addrs as)) = {}"
    using sub_a sub_as apart by blast
  then have dist: "distinct (concat (map dict_addrs (a # as)))"
    using dist_a dist_as by simp
  have frame: "\<forall>b. b \<notin> set (concat (map dict_addrs (concat (g # gs)))) \<longrightarrow> cells h2 b = cells h b"
    using frame_a frame_as by auto
  from run proper_a proper_as views sub dist frame show ?case
    by (intro exI [of _ "a # as"] exI [of _ h2]) simp
qed

text \<open>The two contributions of the example are proper, separate and of one shape.\<close>

lemma proper_examples: "proper_dict contribution_one" "proper_dict contribution_two"
  by (simp_all add: proper_dict_def complete_entry_def contribution_one_def contribution_two_def
      field_names_def)

lemma separate_examples: "distinct (concat (map dict_addrs [contribution_one, contribution_two]))"
  by (simp add: dict_addrs_def entry_addrs_def cell_addrs_def contribution_one_def
      contribution_two_def field_names_def)

lemma conforms_examples:
  "conforms example_shape (view example_heap contribution_one)"
  "conforms example_shape (view example_heap contribution_two)"
  by (auto simp: conforms_def view_def view_entry_def field_names_def contribution_one_def
      contribution_two_def example_heap_def example_shape_def deref_def vshape_def
      split: if_splits)

text \<open>
  Claim C3, as it holds on the code. Take an atlas and contributions that are separate
  objects: no array is held by two of them, or by two fields. Let their records have the
  six fields, with shapes that agree ROI by ROI and field by field. Then consolidating
  the contributions into the atlas, from one and the same store, in any order, or group
  by group into atlases of their own that are merged into the atlas at the end, always
  returns and gives atlases that read the same. (The key sets of the contributions need
  not even be equal.)
\<close>

theorem consolidate_order_and_grouping:
  assumes proper: "\<forall>c\<in>set cs. proper_dict c" and proper0: "proper_dict atlas0"
    and separate: "distinct (dict_addrs atlas0 @ concat (map dict_addrs cs))"
    and shapes: "\<forall>c\<in>set cs. conforms shape_of (view h c)"
    and shapes0: "conforms shape_of (view h atlas0)"
    and order: "mset cs' = mset cs"
    and grouping: "mset (concat groups) = mset cs"
  shows "\<exists>atlas h1 atlas' h1' group_atlases h2 merged h3.
           consolidate_all cs atlas0 h = Inr (atlas, h1) \<and>
           consolidate_all cs' atlas0 h = Inr (atlas', h1') \<and>
           view h1' atlas' = view h1 atlas \<and>
           consolidate_groups groups h = Inr (group_atlases, h2) \<and>
           consolidate_all group_atlases atlas0 h2 = Inr (merged, h3) \<and>
           view h3 merged = view h1 atlas"
proof -
  \<comment> \<open>the given order\<close>
  from consolidate_all_merge [OF proper proper0 separate shapes0 shapes]
  obtain atlas h1 where run: "consolidate_all cs atlas0 h = Inr (atlas, h1)"
    and view: "view h1 atlas = merge_into (map (view h) cs) (view h atlas0)"
    by blast
  \<comment> \<open>any other order\<close>
  have set': "set cs' = set cs"
    using order by (rule mset_eq_setD)
  have proper': "\<forall>c\<in>set cs'. proper_dict c" and shapes': "\<forall>c\<in>set cs'. conforms shape_of (view h c)"
    using proper shapes set' by simp_all
  have sep': "distinct (dict_addrs atlas0 @ concat (map dict_addrs cs'))"
    using separate distinct_concat_permute [OF order, of dict_addrs]
      set_concat_permute [OF order, of dict_addrs] by simp
  from consolidate_all_merge [OF proper' proper0 sep' shapes0 shapes']
  obtain atlas' h1' where run': "consolidate_all cs' atlas0 h = Inr (atlas', h1')"
    and view': "view h1' atlas' = merge_into (map (view h) cs') (view h atlas0)"
    by blast
  have "mset (map (view h) cs') = mset (map (view h) cs)"
    using order by simp
  then have same_order: "view h1' atlas' = view h1 atlas"
    using merge_into_permute [of "map (view h) cs'" "map (view h) cs"] view view' by simp
  \<comment> \<open>the groups, each with an atlas of its own, and the atlases merged\<close>
  have gset: "set (concat groups) = set cs"
    using grouping by (rule mset_eq_setD)
  have gproper: "\<forall>c\<in>set (concat groups). proper_dict c"
    and gshapes: "\<forall>c\<in>set (concat groups). conforms shape_of (view h c)"
    using proper shapes gset by simp_all
  have gsep: "distinct (concat (map dict_addrs (concat groups)))"
    using separate distinct_concat_permute [OF grouping, of dict_addrs] by simp
  have gaddrs: "set (concat (map dict_addrs (concat groups))) = set (concat (map dict_addrs cs))"
    by (rule set_concat_permute [OF grouping])
  from consolidate_groups_merge [OF gproper gsep gshapes]
  obtain as h2 where grun: "consolidate_groups groups h = Inr (as, h2)"
    and as_proper: "\<forall>a\<in>set as. proper_dict a"
    and as_view: "map (view h2) as = map (\<lambda>g. merge_into (map (view h) g) Map.empty) groups"
    and as_sub: "set (concat (map dict_addrs as)) \<subseteq> set (concat (map dict_addrs (concat groups)))"
    and as_dist: "distinct (concat (map dict_addrs as))"
    and as_frame: "\<forall>b. b \<notin> set (concat (map dict_addrs (concat groups))) \<longrightarrow> cells h2 b = cells h b"
    by blast
  have as_shapes: "\<forall>a\<in>set as. conforms shape_of (view h2 a)"
  proof
    fix a assume "a \<in> set as"
    then have "view h2 a \<in> set (map (view h2) as)" by simp
    then obtain g where g: "g \<in> set groups" "view h2 a = merge_into (map (view h) g) Map.empty"
      unfolding as_view by auto
    have "\<forall>v\<in>set (map (view h) g). conforms shape_of v"
      using gshapes g(1) by auto
    then show "conforms shape_of (view h2 a)"
      unfolding g(2) by (intro conforms_merge_into) simp_all
  qed
  have view0: "view h2 atlas0 = view h atlas0"
  proof (rule view_frame, rule ballI)
    fix b assume "b \<in> set (dict_addrs atlas0)"
    then have "b \<notin> set (concat (map dict_addrs (concat groups)))"
      using separate gaddrs by auto
    with as_frame show "cells h2 b = cells h b" by simp
  qed
  have "set (dict_addrs atlas0) \<inter> set (concat (map dict_addrs as)) = {}"
    using separate as_sub gaddrs by auto
  then have as_sep: "distinct (dict_addrs atlas0 @ concat (map dict_addrs as))"
    using as_dist separate by simp
  have shapes2: "conforms shape_of (view h2 atlas0)"
    using shapes0 view0 by simp
  from consolidate_all_merge [OF as_proper proper0 as_sep shapes2 as_shapes]
  obtain merged h3 where mrun: "consolidate_all as atlas0 h2 = Inr (merged, h3)"
    and mview: "view h3 merged = merge_into (map (view h2) as) (view h2 atlas0)"
    by blast
  have "view h3 merged =
      merge_into (map (\<lambda>g. merge_into g Map.empty) (map (map (view h)) groups)) (view h atlas0)"
    by (simp add: mview as_view view0 comp_def)
  also have "\<dots> = merge_into (concat (map (map (view h)) groups)) (view h atlas0)"
    by (rule merge_into_groups)
  also have "concat (map (map (view h)) groups) = map (view h) (concat groups)"
    by (simp add: map_concat)
  also have "merge_into (map (view h) (concat groups)) = merge_into (map (view h) cs)"
    using grouping by (intro merge_into_permute) simp
  finally have same_groups: "view h3 merged = view h1 atlas"
    using view by simp
  from run run' same_order grun mrun same_groups show ?thesis by blast
qed

text \<open>
  Without the separation the order matters. The atlas takes over the arrays of the first
  contribution it sees for an ROI and adds to them in place. When that contribution comes
  again, it arrives changed: the two contributions below have the same key and the same
  shapes, and two orders of the collection \<open>one, one, two\<close> give the vectors
  \<open>2 * one + two\<close> and \<open>2 * (one + two)\<close>.
\<close>

theorem consolidate_order_counterexample:
  "map fst contribution_one = map fst contribution_two \<and>
   proper_dict contribution_one \<and> proper_dict contribution_two \<and>
   conforms example_shape (view example_heap contribution_one) \<and>
   conforms example_shape (view example_heap contribution_two) \<and>
   final_field (consolidate_all [contribution_one, contribution_one, contribution_two] [] example_heap)
     ''roi'' ''avgr'' = Some (Vector [12, 24]) \<and>
   final_field (consolidate_all [contribution_one, contribution_two, contribution_one] [] example_heap)
     ''roi'' ''avgr'' = Some (Vector [22, 44])"
proof -
  have keys: "map fst contribution_one = map fst contribution_two"
    by (simp add: contribution_one_def contribution_two_def)
  have runs:
    "final_field (consolidate_all [contribution_one, contribution_one, contribution_two] [] example_heap)
       ''roi'' ''avgr'' = Some (Vector [12, 24]) \<and>
     final_field (consolidate_all [contribution_one, contribution_two, contribution_one] [] example_heap)
       ''roi'' ''avgr'' = Some (Vector [22, 44])"
    by code_simp
  from keys proper_examples conforms_examples runs show ?thesis
    by (intro conjI) simp_all
qed

theorem consolidate_order_and_grouping_witness:
  "proper_dict contribution_one \<and> proper_dict contribution_two \<and> proper_dict [] \<and>
   distinct (dict_addrs [] @ concat (map dict_addrs [contribution_one, contribution_two])) \<and>
   conforms example_shape (view example_heap contribution_one) \<and>
   conforms example_shape (view example_heap contribution_two) \<and>
   conforms example_shape (view example_heap []) \<and>
   mset [contribution_two, contribution_one] = mset [contribution_one, contribution_two] \<and>
   mset (concat [[contribution_two], [contribution_one]]) = mset [contribution_one, contribution_two] \<and>
   (\<exists>atlas h1 atlas' h1' group_atlases h2 merged h3.
      consolidate_all [contribution_one, contribution_two] [] example_heap = Inr (atlas, h1) \<and>
      consolidate_all [contribution_two, contribution_one] [] example_heap = Inr (atlas', h1') \<and>
      view h1' atlas' = view h1 atlas \<and>
      consolidate_groups [[contribution_two], [contribution_one]] example_heap = Inr (group_atlases, h2) \<and>
      consolidate_all group_atlases [] h2 = Inr (merged, h3) \<and>
      view h3 merged = view h1 atlas)"
proof -
  let ?cs = "[contribution_one, contribution_two]"
  have proper: "\<forall>c\<in>set ?cs. proper_dict c"
    using proper_examples by simp
  have proper0: "proper_dict []"
    by simp
  have separate: "distinct (dict_addrs [] @ concat (map dict_addrs ?cs))"
    using separate_examples by simp
  have shapes: "\<forall>c\<in>set ?cs. conforms example_shape (view example_heap c)"
    using conforms_examples by simp
  have shapes0: "conforms example_shape (view example_heap [])"
    by simp
  have order: "mset [contribution_two, contribution_one] = mset ?cs"
    by (simp add: add.commute)
  have grouping: "mset (concat [[contribution_two], [contribution_one]]) = mset ?cs"
    by (simp add: add.commute)
  from consolidate_order_and_grouping [OF proper proper0 separate shapes shapes0 order grouping]
    proper_examples proper0 separate conforms_examples shapes0 order grouping
  show ?thesis by blast
qed

lemma six_fields_field [simp]: "k \<in> set field_names \<Longrightarrow> six_fields r k = r k"
  by (simp add: six_fields_def)

lemma dom_six_fields: "complete_entry r \<Longrightarrow> dom (six_fields r) = set field_names"
  by (auto simp: six_fields_def complete_entry_def list_all_iff split: if_splits)

lemma view_entry_six_fields [simp]: "view_entry h (six_fields r) = view_entry h r"
  by (rule view_entry_cong) simp

lemma entry_addrs_six_fields [simp]: "entry_addrs (six_fields r) = entry_addrs r"
  by (rule entry_addrs_cong) simp

text \<open>Into an atlas that has none of the ROIs, the loop of \<open>consolidate\<close> only copies.\<close>

lemma copy_loop:
  assumes "distinct (map fst todo)" and "list_all (\<lambda>p. complete_entry (snd p)) todo"
    and "\<forall>p\<in>set todo. map_of c (fst p) = Some (snd p)"
    and "\<forall>p\<in>set todo. map_of atlas (fst p) = None"
  shows "for_each (consolidate_roi c) (map fst todo) (h, atlas) =
         Inr (h, atlas @ map (\<lambda>p. (fst p, six_fields (snd p))) todo)"
  using assms
proof (induction todo arbitrary: atlas)
  case Nil
  then show ?case by simp
next
  case (Cons p todo)
  obtain roi r where p: "p = (roi, r)" by (cases p)
  have c: "map_of c roi = Some r" and absent: "map_of atlas roi = None"
    and complete: "complete_entry r"
    using Cons.prems p by auto
  have step: "consolidate_roi c roi (h, atlas) = Inr (h, atlas @ [(roi, six_fields r)])"
    using c absent copy_fields [OF complete]
    by (simp add: consolidate_roi_def update_absent six_fields_def)
  have "\<forall>q\<in>set todo. map_of (atlas @ [(roi, six_fields r)]) (fst q) = None"
  proof
    fix q assume q: "q \<in> set todo"
    then have "fst q \<noteq> roi" using Cons.prems(1) p by auto
    moreover have "map_of atlas (fst q) = None" using Cons.prems(4) q by simp
    ultimately show "map_of (atlas @ [(roi, six_fields r)]) (fst q) = None"
      by (simp add: map_add_def map_of_append)
  qed
  then have "for_each (consolidate_roi c) (map fst todo) (h, atlas @ [(roi, six_fields r)]) =
      Inr (h, (atlas @ [(roi, six_fields r)]) @ map (\<lambda>p. (fst p, six_fields (snd p))) todo)"
    using Cons.prems by (intro Cons.IH) simp_all
  then show ?case
    using step p by simp
qed

lemma consolidate_empty:
  assumes "proper_dict c"
  shows "consolidate c [] h = Inr (map (\<lambda>p. (fst p, six_fields (snd p))) c, h)"
proof -
  have "for_each (consolidate_roi c) (map fst c) (h, []) =
        Inr (h, [] @ map (\<lambda>p. (fst p, six_fields (snd p))) c)"
    using assms by (intro copy_loop) (auto simp: proper_dict_def)
  then show ?thesis
    by (simp add: consolidate_def)
qed

lemma map_of_six_fields:
  "map_of (map (\<lambda>p. (fst p, six_fields (snd p))) c) roi = map_option six_fields (map_of c roi)"
  by (induction c) auto

text \<open>
  Claim C4. Consolidating a contribution whose records have the six fields into an empty
  atlas returns an atlas with the keys of the contribution, one record per key, and each
  record has exactly the six fields, each holding what the contribution's record holds;
  the store is left as it was.
\<close>

theorem consolidate_into_empty_atlas:
  assumes "proper_dict contribution"
  shows "\<exists>atlas. consolidate contribution [] h = Inr (atlas, h) \<and>
           map fst atlas = map fst contribution \<and>
           (\<forall>roi r. map_of contribution roi = Some r \<longrightarrow>
              (\<exists>r'. map_of atlas roi = Some r' \<and> dom r' = set field_names \<and>
                    (\<forall>k\<in>set field_names. r' k = r k))) \<and>
           view h atlas = view h contribution"
proof -
  let ?atlas = "map (\<lambda>p. (fst p, six_fields (snd p))) contribution"
  have run: "consolidate contribution [] h = Inr (?atlas, h)"
    using assms by (rule consolidate_empty)
  have keys: "map fst ?atlas = map fst contribution"
    by (simp add: comp_def)
  have entries: "\<exists>r'. map_of ?atlas roi = Some r' \<and> dom r' = set field_names \<and>
                    (\<forall>k\<in>set field_names. r' k = r k)"
    if "map_of contribution roi = Some r" for roi r
  proof -
    have "complete_entry r"
      using assms that by (rule proper_dict_entry)
    then show ?thesis
      using that by (simp add: map_of_six_fields dom_six_fields)
  qed
  have "view h ?atlas = view h contribution"
    by (rule ext) (simp add: view_def map_of_six_fields option.map_comp comp_def)
  with run keys entries show ?thesis by blast
qed

theorem consolidate_into_empty_atlas_witness:
  "proper_dict contribution_one \<and>
   (\<exists>atlas. consolidate contribution_one [] example_heap = Inr (atlas, example_heap) \<and>
      map fst atlas = [''roi''] \<and>
      view example_heap atlas = view example_heap contribution_one)"
proof -
  have keys: "map fst contribution_one = [''roi'']"
    by (simp add: contribution_one_def)
  from consolidate_into_empty_atlas [OF proper_examples(1), of example_heap]
  obtain atlas where "consolidate contribution_one [] example_heap = Inr (atlas, example_heap)"
    "map fst atlas = map fst contribution_one"
    "view example_heap atlas = view example_heap contribution_one"
    by blast
  with keys proper_examples(1) show ?thesis by auto
qed

lemma vadd_self: "vadd v v = twice v"
proof (cases v)
  case (Vector xs)
  have "map2 (+) xs xs = map (\<lambda>x. 2 * x) xs"
    by (simp add: zip_same_conv_map)
  then show ?thesis using Vector by (simp add: twice_def)
next
  case (Scalar x)
  then show ?thesis by (simp add: twice_def)
qed

lemma distinct_concat_apart:
  assumes "distinct (concat (map f ks))" and "j \<in> set ks" and "k \<in> set ks" and "j \<noteq> k"
  shows "set (f k) \<inter> set (f j) = {}"
  using assms by (induction ks) auto

text \<open>One round of the loop of \<open>consolidate\<close>, for a record whose arrays the atlas shares.\<close>

lemma double_step:
  assumes c: "map_of c roi = Some r" and complete: "complete_entry r"
    and a: "map_of atlas roi = Some a" and shared: "\<forall>k\<in>set field_names. a k = r k"
    and sep: "distinct (entry_addrs r)"
  shows "\<exists>h1 a1. consolidate_roi c roi (h, atlas) = Inr (h1, AList.update roi a1 atlas) \<and>
           entry_addrs a1 = entry_addrs r \<and>
           (\<forall>k\<in>set field_names. map_option (deref h1) (a1 k) = map_option (\<lambda>x. twice (deref h x)) (r k)) \<and>
           (\<forall>k\<in>set field_names. \<forall>b. r k = Some (Array b) \<longrightarrow>
              deref h1 (Array b) = twice (deref h (Array b))) \<and>
           (\<forall>b. b \<notin> set (entry_addrs r) \<longrightarrow> cells h1 b = cells h b)"
proof -
  have same_addrs: "cell_addrs (a k) = cell_addrs (r k)" if "k \<in> set field_names" for k
    using shared that by simp
  have shapes: "\<forall>k\<in>set field_names. \<exists>x y. a k = Some x \<and> r k = Some y \<and>
      vshape (deref h x) = vshape (deref h y)"
  proof
    fix k assume k: "k \<in> set field_names"
    from complete_entryD [OF complete k] obtain y where "r k = Some y" by blast
    then show "\<exists>x y. a k = Some x \<and> r k = Some y \<and> vshape (deref h x) = vshape (deref h y)"
      using shared k by simp
  qed
  have addrs: "map (\<lambda>k. cell_addrs (a k)) field_names = map (\<lambda>k. cell_addrs (r k)) field_names"
    using same_addrs by simp
  have sep1: "distinct (concat (map (\<lambda>k. cell_addrs (a k)) field_names))"
    using sep by (simp only: addrs entry_addrs_def)
  have sep2: "\<forall>k\<in>set field_names. \<forall>j\<in>set field_names. j \<noteq> k \<longrightarrow>
      set (cell_addrs (r k)) \<inter> set (cell_addrs (a j)) = {}"
  proof (intro ballI impI)
    fix k j assume kj: "k \<in> set field_names" "j \<in> set field_names" "j \<noteq> k"
    have "set (cell_addrs (r k)) \<inter> set (cell_addrs (r j)) = {}"
      using sep kj unfolding entry_addrs_def by (intro distinct_concat_apart) auto
    then show "set (cell_addrs (r k)) \<inter> set (cell_addrs (a j)) = {}"
      using same_addrs [OF kj(2)] by simp
  qed
  from add_fields [OF distinct_field_names shapes sep1 sep2] obtain h1 a1 where
    loop: "for_each (add_field r) field_names (h, a) = Inr (h1, a1)" and
    addr: "\<forall>k. cell_addrs (a1 k) = cell_addrs (a k)" and
    vals: "\<forall>k\<in>set field_names. map_option (deref h1) (a1 k) =
             Some (vadd (deref h (the (a k))) (deref h (the (r k))))" and
    frame: "\<forall>b. b \<notin> set (concat (map (\<lambda>k. cell_addrs (a k)) field_names)) \<longrightarrow> cells h1 b = cells h b"
    by blast
  have run: "consolidate_roi c roi (h, atlas) = Inr (h1, AList.update roi a1 atlas)"
    using c a loop by (simp add: consolidate_roi_def)
  have addrs1: "entry_addrs a1 = entry_addrs r"
    using addr same_addrs by (intro entry_addrs_cong) simp
  have doubled: "\<forall>k\<in>set field_names. map_option (deref h1) (a1 k) =
      map_option (\<lambda>x. twice (deref h x)) (r k)"
  proof
    fix k assume k: "k \<in> set field_names"
    from complete_entryD [OF complete k] obtain y where y: "r k = Some y" by blast
    from vals k have "map_option (deref h1) (a1 k) =
        Some (vadd (deref h (the (a k))) (deref h (the (r k))))"
      by (rule bspec)
    then show "map_option (deref h1) (a1 k) = map_option (\<lambda>x. twice (deref h x)) (r k)"
      using shared k y by (simp add: vadd_self)
  qed
  have own: "\<forall>k\<in>set field_names. \<forall>b. r k = Some (Array b) \<longrightarrow>
      deref h1 (Array b) = twice (deref h (Array b))"
  proof (intro ballI allI impI)
    fix k b assume k: "k \<in> set field_names" and b: "r k = Some (Array b)"
    have "cell_addrs (a1 k) = [b]"
      using addr same_addrs [OF k] b by (simp add: cell_addrs_def)
    then have held: "a1 k = Some (Array b)"
      by (simp add: cell_addrs_def split: option.splits cell.splits)
    from doubled k have "map_option (deref h1) (a1 k) = map_option (\<lambda>x. twice (deref h x)) (r k)"
      by (rule bspec)
    with held b show "deref h1 (Array b) = twice (deref h (Array b))"
      by simp
  qed
  have frame': "\<forall>b. b \<notin> set (entry_addrs r) \<longrightarrow> cells h1 b = cells h b"
    using frame by (simp only: addrs entry_addrs_def)
  from run addrs1 doubled own frame' show ?thesis by blast
qed

lemma keys_update_present:
  "map_of d roi = Some a \<Longrightarrow> map fst (AList.update roi a' d) = map fst d"
  by (induction d) (auto split: if_splits)

text \<open>The loop of \<open>consolidate\<close> over records whose arrays the atlas shares.\<close>

lemma double_loop:
  assumes "distinct (map fst todo)" and "list_all (\<lambda>p. complete_entry (snd p)) todo"
    and "\<forall>p\<in>set todo. map_of c (fst p) = Some (snd p)"
    and "\<forall>p\<in>set todo. \<exists>a. map_of atlas (fst p) = Some a \<and> (\<forall>k\<in>set field_names. a k = snd p k)"
    and "distinct (dict_addrs todo)"
  shows "\<exists>h' atlas'. for_each (consolidate_roi c) (map fst todo) (h, atlas) = Inr (h', atlas') \<and>
           map fst atlas' = map fst atlas \<and>
           (\<forall>p\<in>set todo. \<exists>a'. map_of atlas' (fst p) = Some a' \<and>
              (\<forall>k\<in>set field_names. map_option (deref h') (a' k) =
                                     map_option (\<lambda>x. twice (deref h x)) (snd p k))) \<and>
           (\<forall>p\<in>set todo. \<forall>k\<in>set field_names. \<forall>b. snd p k = Some (Array b) \<longrightarrow>
              deref h' (Array b) = twice (deref h (Array b))) \<and>
           (\<forall>roi. roi \<notin> fst ` set todo \<longrightarrow> map_of atlas' roi = map_of atlas roi) \<and>
           (\<forall>b. b \<notin> set (dict_addrs todo) \<longrightarrow> cells h' b = cells h b)"
  using assms
proof (induction todo arbitrary: h atlas)
  case Nil
  then show ?case by simp
next
  case (Cons p todo)
  obtain roi r where p: "p = (roi, r)" by (cases p)
  have fresh: "roi \<notin> fst ` set todo" and dist: "distinct (map fst todo)"
    using Cons.prems(1) p by auto
  have complete: "complete_entry r" and completes: "list_all (\<lambda>p. complete_entry (snd p)) todo"
    using Cons.prems(2) p by auto
  have c: "map_of c roi = Some r" and cs: "\<forall>p\<in>set todo. map_of c (fst p) = Some (snd p)"
    using Cons.prems(3) p by auto
  from Cons.prems(4) p obtain a where a: "map_of atlas roi = Some a"
    and shared: "\<forall>k\<in>set field_names. a k = r k"
    by auto
  have sep_r: "distinct (entry_addrs r)" and sep_todo: "distinct (dict_addrs todo)"
    and apart: "set (entry_addrs r) \<inter> set (dict_addrs todo) = {}"
    using Cons.prems(5) p by auto
  from double_step [OF c complete a shared sep_r, of h] obtain h1 a1 where
    step: "consolidate_roi c roi (h, atlas) = Inr (h1, AList.update roi a1 atlas)" and
    addrs1: "entry_addrs a1 = entry_addrs r" and
    doubled: "\<forall>k\<in>set field_names. map_option (deref h1) (a1 k) =
                 map_option (\<lambda>x. twice (deref h x)) (r k)" and
    own1: "\<forall>k\<in>set field_names. \<forall>b. r k = Some (Array b) \<longrightarrow>
                 deref h1 (Array b) = twice (deref h (Array b))" and
    frame1: "\<forall>b. b \<notin> set (entry_addrs r) \<longrightarrow> cells h1 b = cells h b"
    by blast
  let ?atlas1 = "AList.update roi a1 atlas"
  have shared1: "\<forall>q\<in>set todo. \<exists>a. map_of ?atlas1 (fst q) = Some a \<and>
      (\<forall>k\<in>set field_names. a k = snd q k)"
  proof
    fix q assume q: "q \<in> set todo"
    then have "fst q \<noteq> roi" using fresh by auto
    then have "map_of ?atlas1 (fst q) = map_of atlas (fst q)"
      by (simp add: update_conv')
    then show "\<exists>a. map_of ?atlas1 (fst q) = Some a \<and> (\<forall>k\<in>set field_names. a k = snd q k)"
      using Cons.prems(4) q by simp
  qed
  from Cons.IH [OF dist completes cs shared1 sep_todo, of h1] obtain h' atlas' where
    rest: "for_each (consolidate_roi c) (map fst todo) (h1, ?atlas1) = Inr (h', atlas')" and
    keys': "map fst atlas' = map fst ?atlas1" and
    doubled': "\<forall>q\<in>set todo. \<exists>a'. map_of atlas' (fst q) = Some a' \<and>
              (\<forall>k\<in>set field_names. map_option (deref h') (a' k) =
                                     map_option (\<lambda>x. twice (deref h1 x)) (snd q k))" and
    own': "\<forall>q\<in>set todo. \<forall>k\<in>set field_names. \<forall>b. snd q k = Some (Array b) \<longrightarrow>
              deref h' (Array b) = twice (deref h1 (Array b))" and
    others': "\<forall>roi'. roi' \<notin> fst ` set todo \<longrightarrow> map_of atlas' roi' = map_of ?atlas1 roi'" and
    frame': "\<forall>b. b \<notin> set (dict_addrs todo) \<longrightarrow> cells h' b = cells h1 b"
    by blast
  have run: "for_each (consolidate_roi c) (map fst (p # todo)) (h, atlas) = Inr (h', atlas')"
    using step rest p by simp
  have keys: "map fst atlas' = map fst atlas"
    using keys' keys_update_present [OF a] by simp
  \<comment> \<open>the record of this ROI: doubled by this round, untouched by the later ones\<close>
  have current: "\<exists>a'. map_of atlas' roi = Some a' \<and>
      (\<forall>k\<in>set field_names. map_option (deref h') (a' k) = map_option (\<lambda>x. twice (deref h x)) (r k))"
  proof -
    have "map_of atlas' roi = Some a1"
      using others' fresh by (simp add: update_conv')
    moreover have "map_option (deref h') (a1 k) = map_option (\<lambda>x. twice (deref h x)) (r k)"
      if k: "k \<in> set field_names" for k
    proof -
      have "map_option (deref h') (a1 k) = map_option (deref h1) (a1 k)"
      proof (cases "a1 k")
        case None
        then show ?thesis by simp
      next
        case (Some x)
        have "deref h' x = deref h1 x"
        proof (rule deref_frame, rule ballI)
          fix b assume "b \<in> set (cell_addrs (Some x))"
          then have "b \<in> set (entry_addrs a1)"
            using cell_addrs_subset_entry [OF k, of a1] Some by auto
          then have "b \<notin> set (dict_addrs todo)"
            using addrs1 apart by auto
          with frame' show "cells h' b = cells h1 b" by simp
        qed
        with Some show ?thesis by simp
      qed
      with doubled k show ?thesis by simp
    qed
    ultimately show ?thesis by blast
  qed
  \<comment> \<open>the records of the later ROIs: their arrays were not touched by this round\<close>
  have later: "\<exists>a'. map_of atlas' (fst q) = Some a' \<and>
      (\<forall>k\<in>set field_names. map_option (deref h') (a' k) =
                             map_option (\<lambda>x. twice (deref h x)) (snd q k))"
    if q: "q \<in> set todo" for q
  proof -
    from doubled' q obtain a' where a': "map_of atlas' (fst q) = Some a'"
      and d: "\<forall>k\<in>set field_names. map_option (deref h') (a' k) =
                 map_option (\<lambda>x. twice (deref h1 x)) (snd q k)"
      by blast
    have q_sub: "set (entry_addrs (snd q)) \<subseteq> set (dict_addrs todo)"
      using q by (auto simp: dict_addrs_def)
    have "map_option (\<lambda>x. twice (deref h1 x)) (snd q k) = map_option (\<lambda>x. twice (deref h x)) (snd q k)"
      if k: "k \<in> set field_names" for k
    proof (cases "snd q k")
      case None
      then show ?thesis by simp
    next
      case (Some x)
      have "deref h1 x = deref h x"
      proof (rule deref_frame, rule ballI)
        fix b assume "b \<in> set (cell_addrs (Some x))"
        then have "b \<in> set (entry_addrs (snd q))"
          using cell_addrs_subset_entry [OF k, of "snd q"] Some by auto
        then have "b \<notin> set (entry_addrs r)"
          using q_sub apart by auto
        with frame1 show "cells h1 b = cells h b" by simp
      qed
      with Some show ?thesis by simp
    qed
    with a' d show ?thesis by simp
  qed
  have all: "\<forall>q\<in>set (p # todo). \<exists>a'. map_of atlas' (fst q) = Some a' \<and>
      (\<forall>k\<in>set field_names. map_option (deref h') (a' k) =
                             map_option (\<lambda>x. twice (deref h x)) (snd q k))"
    using current later p by simp
  \<comment> \<open>the arrays of the contribution itself: those of this ROI, then those of the later ones\<close>
  have own_current: "deref h' (Array b) = twice (deref h (Array b))"
    if k: "k \<in> set field_names" and b: "r k = Some (Array b)" for k b
  proof -
    have "b \<in> set (entry_addrs r)"
      using cell_addrs_subset_entry [OF k, of r] b by (auto simp: cell_addrs_def)
    then have "b \<notin> set (dict_addrs todo)"
      using apart by auto
    with frame' have "cells h' b = cells h1 b" by simp
    then have "deref h' (Array b) = deref h1 (Array b)"
      by (simp add: deref_def)
    with own1 k b show ?thesis by simp
  qed
  have own_later: "deref h' (Array b) = twice (deref h (Array b))"
    if q: "q \<in> set todo" and k: "k \<in> set field_names" and b: "snd q k = Some (Array b)" for q k b
  proof -
    have "b \<in> set (entry_addrs (snd q))"
      using cell_addrs_subset_entry [OF k, of "snd q"] b by (auto simp: cell_addrs_def)
    moreover have "set (entry_addrs (snd q)) \<subseteq> set (dict_addrs todo)"
      using q by (auto simp: dict_addrs_def)
    ultimately have "b \<notin> set (entry_addrs r)"
      using apart by auto
    with frame1 have "cells h1 b = cells h b" by simp
    then have "deref h1 (Array b) = deref h (Array b)"
      by (simp add: deref_def)
    moreover from own' q k b have "deref h' (Array b) = twice (deref h1 (Array b))"
      by blast
    ultimately show ?thesis by simp
  qed
  have own: "\<forall>q\<in>set (p # todo). \<forall>k\<in>set field_names. \<forall>b. snd q k = Some (Array b) \<longrightarrow>
      deref h' (Array b) = twice (deref h (Array b))"
    using own_current own_later p by auto
  have others: "\<forall>roi'. roi' \<notin> fst ` set (p # todo) \<longrightarrow> map_of atlas' roi' = map_of atlas roi'"
    using others' p by (simp add: update_conv')
  have frame: "\<forall>b. b \<notin> set (dict_addrs (p # todo)) \<longrightarrow> cells h' b = cells h b"
    using frame' frame1 p by simp
  from run keys all own others frame show ?case by blast
qed

text \<open>
  Claim C5, as it holds on the code. Take a contribution whose records have the six
  fields and whose fields hold separate arrays. Consolidating it twice, starting from the
  empty atlas, does not deduplicate: for every ROI and every one of the six fields the
  atlas then holds twice the value that the contribution held before the two calls. The
  arrays of the atlas are those of the contribution, so its own vectors are doubled too:
  every array that a field of the contribution holds reads, after the calls, twice what it
  read before them.
\<close>

theorem consolidate_twice_doubles:
  assumes "proper_dict contribution" and "distinct (dict_addrs contribution)"
  shows "\<exists>atlas1 h1 atlas2 h2.
           consolidate contribution [] h = Inr (atlas1, h1) \<and>
           consolidate contribution atlas1 h1 = Inr (atlas2, h2) \<and>
           map fst atlas2 = map fst contribution \<and>
           (\<forall>roi r. map_of contribution roi = Some r \<longrightarrow>
              (\<exists>r2. map_of atlas2 roi = Some r2 \<and>
                 (\<forall>k\<in>set field_names. map_option (deref h2) (r2 k) =
                                        map_option (\<lambda>x. twice (deref h x)) (r k))) \<and>
              (\<forall>k\<in>set field_names. \<forall>b. r k = Some (Array b) \<longrightarrow>
                 deref h2 (Array b) = twice (deref h (Array b))))"
proof -
  let ?atlas1 = "map (\<lambda>p. (fst p, six_fields (snd p))) contribution"
  have first: "consolidate contribution [] h = Inr (?atlas1, h)"
    using assms(1) by (rule consolidate_empty)
  have keys: "distinct (map fst contribution)"
    and complete: "list_all (\<lambda>p. complete_entry (snd p)) contribution"
    using assms(1) by (simp_all add: proper_dict_def)
  have self: "\<forall>p\<in>set contribution. map_of contribution (fst p) = Some (snd p)"
    using keys by auto
  have shared: "\<forall>p\<in>set contribution. \<exists>a. map_of ?atlas1 (fst p) = Some a \<and>
      (\<forall>k\<in>set field_names. a k = snd p k)"
    using self by (simp add: map_of_six_fields)
  from double_loop [OF keys complete self shared assms(2), of h] obtain h2 atlas2 where
    loop: "for_each (consolidate_roi contribution) (map fst contribution) (h, ?atlas1) = Inr (h2, atlas2)"
    and keys2: "map fst atlas2 = map fst ?atlas1"
    and doubled: "\<forall>p\<in>set contribution. \<exists>a'. map_of atlas2 (fst p) = Some a' \<and>
              (\<forall>k\<in>set field_names. map_option (deref h2) (a' k) =
                                     map_option (\<lambda>x. twice (deref h x)) (snd p k))"
    and own: "\<forall>p\<in>set contribution. \<forall>k\<in>set field_names. \<forall>b. snd p k = Some (Array b) \<longrightarrow>
              deref h2 (Array b) = twice (deref h (Array b))"
    by blast
  have second: "consolidate contribution ?atlas1 h = Inr (atlas2, h2)"
    using loop by (simp add: consolidate_def)
  have keys2': "map fst atlas2 = map fst contribution"
    using keys2 by (simp add: comp_def)
  have "(\<exists>r2. map_of atlas2 roi = Some r2 \<and>
          (\<forall>k\<in>set field_names. map_option (deref h2) (r2 k) =
                                 map_option (\<lambda>x. twice (deref h x)) (r k))) \<and>
        (\<forall>k\<in>set field_names. \<forall>b. r k = Some (Array b) \<longrightarrow>
           deref h2 (Array b) = twice (deref h (Array b)))"
    if "map_of contribution roi = Some r" for roi r
  proof -
    have member: "(roi, r) \<in> set contribution"
      using that by (rule map_of_SomeD)
    with doubled have atlas: "\<exists>r2. map_of atlas2 roi = Some r2 \<and>
          (\<forall>k\<in>set field_names. map_option (deref h2) (r2 k) =
                                 map_option (\<lambda>x. twice (deref h x)) (r k))"
      by fastforce
    from own member have "\<forall>k\<in>set field_names. \<forall>b. r k = Some (Array b) \<longrightarrow>
           deref h2 (Array b) = twice (deref h (Array b))"
      by fastforce
    with atlas show ?thesis by simp
  qed
  with first second keys2' show ?thesis by blast
qed

theorem consolidate_twice_doubles_witness:
  "proper_dict contribution_one \<and> distinct (dict_addrs contribution_one) \<and>
   (\<exists>atlas1 h1 atlas2 h2.
      consolidate contribution_one [] example_heap = Inr (atlas1, h1) \<and>
      consolidate contribution_one atlas1 h1 = Inr (atlas2, h2) \<and>
      (\<exists>r2. map_of atlas2 ''roi'' = Some r2 \<and>
            map_option (deref h2) (r2 ''avgr'') = Some (Vector [2, 4]) \<and>
            map_option (deref h2) (r2 ''numerator'') = Some (Scalar 16)) \<and>
      deref h2 (Array 0) = Vector [2, 4])"
proof -
  let ?r = "[''avgr'' \<mapsto> Array 0, ''fz'' \<mapsto> Array 1, ''t'' \<mapsto> Array 2,
             ''network_weight'' \<mapsto> Number 7, ''numerator'' \<mapsto> Number 8,
             ''denominator'' \<mapsto> Number 9]"
  have sep: "distinct (dict_addrs contribution_one)"
    by (simp add: dict_addrs_def entry_addrs_def cell_addrs_def contribution_one_def field_names_def)
  have entry: "map_of contribution_one ''roi'' = Some ?r"
    by (simp add: contribution_one_def)
  have fields: "''avgr'' \<in> set field_names" "''numerator'' \<in> set field_names"
    by (simp_all add: field_names_def)
  have before: "map_option (\<lambda>x. twice (deref example_heap x)) (?r ''avgr'') = Some (Vector [2, 4])"
    "map_option (\<lambda>x. twice (deref example_heap x)) (?r ''numerator'') = Some (Scalar 16)"
    by (simp_all add: twice_def deref_def example_heap_def)
  from consolidate_twice_doubles [OF proper_examples(1) sep, of example_heap]
  obtain atlas1 h1 atlas2 h2 where
    runs: "consolidate contribution_one [] example_heap = Inr (atlas1, h1)"
      "consolidate contribution_one atlas1 h1 = Inr (atlas2, h2)" and
    doubled: "\<forall>roi r. map_of contribution_one roi = Some r \<longrightarrow>
              (\<exists>r2. map_of atlas2 roi = Some r2 \<and>
                 (\<forall>k\<in>set field_names. map_option (deref h2) (r2 k) =
                                        map_option (\<lambda>x. twice (deref example_heap x)) (r k))) \<and>
              (\<forall>k\<in>set field_names. \<forall>b. r k = Some (Array b) \<longrightarrow>
                 deref h2 (Array b) = twice (deref example_heap (Array b)))"
    by blast
  from doubled entry obtain r2 where r2: "map_of atlas2 ''roi'' = Some r2"
    and vals: "\<forall>k\<in>set field_names. map_option (deref h2) (r2 k) =
                 map_option (\<lambda>x. twice (deref example_heap x)) (?r k)"
    and own: "\<forall>k\<in>set field_names. \<forall>b. ?r k = Some (Array b) \<longrightarrow>
                 deref h2 (Array b) = twice (deref example_heap (Array b))"
    by blast
  from own fields(1) have "\<forall>b. ?r ''avgr'' = Some (Array b) \<longrightarrow>
      deref h2 (Array b) = twice (deref example_heap (Array b))"
    by (rule bspec)
  then have "deref h2 (Array 0) = twice (deref example_heap (Array 0))"
    by simp
  then have after: "deref h2 (Array 0) = Vector [2, 4]"
    by (simp add: twice_def deref_def example_heap_def)
  from vals fields(1) have "map_option (deref h2) (r2 ''avgr'') =
      map_option (\<lambda>x. twice (deref example_heap x)) (?r ''avgr'')"
    by (rule bspec)
  moreover from vals fields(2) have "map_option (deref h2) (r2 ''numerator'') =
      map_option (\<lambda>x. twice (deref example_heap x)) (?r ''numerator'')"
    by (rule bspec)
  ultimately have "map_option (deref h2) (r2 ''avgr'') = Some (Vector [2, 4])"
    "map_option (deref h2) (r2 ''numerator'') = Some (Scalar 16)"
    using before by simp_all
  with proper_examples(1) sep runs r2 after show ?thesis by blast
qed

text \<open>
  Where two fields hold one array, the second call adds that array to itself once for
  each of them: \<open>[1, 2]\<close> becomes \<open>[4, 8]\<close>. And with separate arrays, what the
  contribution holds after the calls is what the atlas holds, not half of it.
\<close>

theorem consolidate_twice_counterexample:
  "proper_dict contribution_shared \<and>
   final_field (Inr (contribution_shared, example_heap)) ''roi'' ''avgr'' = Some (Vector [1, 2]) \<and>
   final_field (twice_into_empty contribution_shared example_heap) ''roi'' ''avgr'' = Some (Vector [4, 8]) \<and>
   final_field (twice_into_empty contribution_one example_heap) ''roi'' ''avgr'' = Some (Vector [2, 4]) \<and>
   final_field (and_then (twice_into_empty contribution_one example_heap)
                  (\<lambda>(atlas, h). Inr (contribution_one, h))) ''roi'' ''avgr'' = Some (Vector [2, 4])"
proof -
  have proper: "proper_dict contribution_shared"
    by (simp add: proper_dict_def complete_entry_def contribution_shared_def field_names_def)
  have runs:
    "final_field (Inr (contribution_shared, example_heap)) ''roi'' ''avgr'' = Some (Vector [1, 2]) \<and>
     final_field (twice_into_empty contribution_shared example_heap) ''roi'' ''avgr'' = Some (Vector [4, 8]) \<and>
     final_field (twice_into_empty contribution_one example_heap) ''roi'' ''avgr'' = Some (Vector [2, 4]) \<and>
     final_field (and_then (twice_into_empty contribution_one example_heap)
                    (\<lambda>(atlas, h). Inr (contribution_one, h))) ''roi'' ''avgr'' = Some (Vector [2, 4])"
    by code_simp
  from proper runs show ?thesis
    by (intro conjI) simp_all
qed

end
